theory Spec2Isabelle
  imports Main "HOL-Library.Sublist"
begin

section \<open>Data model of TemplateString.ts\<close>

text \<open>
  A JavaScript string is modelled as a \<^typ>\<open>string\<close>: one \<^typ>\<open>char\<close> per code unit,
  \<open>length\<close> for \<open>.length\<close>, \<open>drop n\<close> for \<open>.slice(n)\<close> and \<open>@\<close> for \<open>+\<close>. A \<^typ>\<open>char\<close> has
  eight bits, so the strings of the model are those whose code units are below 256, the
  characters U+0000 to U+00FF. Column numbers
  and the token cursor are natural numbers.  The two characters that cannot be written
  inside a string literal get names.
\<close>

definition backslash :: char where
  "backslash = CHR 0x5C"

definition apostrophe :: char where
  "apostrophe = CHR 0x27"

datatype LexerState = NORMAL | FIELD

datatype TokenType = STRING | ESCAPE_DOLLAR | OPEN_BRACKET | SYMBOL | COLON | CLOSE_BRACKET | EOF

text \<open>\<open>interface Token { type; text }\<close>; the fields carry a prefix because segments have a
  \<open>text\<close> too.\<close>

record Token =
  tok_type :: TokenType
  tok_text :: string

text \<open>\<open>interface LexMatcher\<close>. The regular expression is modelled by the function that
  \<open>currentInput.match(rule.match)\<close> computes: \<open>None\<close> for \<open>null\<close>, otherwise the matched text
  \<open>matchResult[0]\<close>.\<close>

record LexMatcher =
  match :: "string \<Rightarrow> string option"
  rule_type :: TokenType
  newState :: LexerState

text \<open>What the code raises: the lexer's \<open>throw "Unable to parse!"\<close>, and the \<open>TypeError\<close>
  of JavaScript when a property of \<open>undefined\<close> or \<open>null\<close> is read.\<close>

datatype js_error = UnableToParse | TypeError

text \<open>The three segment interfaces as one tagged union; \<open>seg_text\<close> is the field \<open>text\<close>.\<close>

datatype Segment =
    TextSegment (seg_text: string) (startColumn: nat) (endColumn: nat)
  | FieldSegment (namespace: string) (key: string) (startColumn: nat) (endColumn: nat)
  | ErrorSegment (seg_text: string) (error: string) (startColumn: nat) (endColumn: nat)


section \<open>The lexer\<close>

text \<open>A regular expression \<open>^lit\<close> for a literal text \<open>lit\<close>.\<close>

definition match_literal :: "string \<Rightarrow> string \<Rightarrow> string option" where
  "match_literal lit currentInput =
     (if take (length lit) currentInput = lit then Some lit else None)"

text \<open>A regular expression \<open>^[^...]+\<close>: the longest prefix free of the excluded characters,
  which has to be non-empty.\<close>

definition match_run :: "char list \<Rightarrow> string \<Rightarrow> string option" where
  "match_run excluded currentInput =
     (let m = takeWhile (\<lambda>c. c \<notin> set excluded) currentInput
      in if m = [] then None else Some m)"

definition NormalParseRules :: "LexMatcher list" where
  "NormalParseRules =
    [ \<lparr>match = match_literal [CHR ''$'', CHR ''{''], rule_type = OPEN_BRACKET, newState = FIELD\<rparr>,
      \<lparr>match = match_literal [backslash, CHR ''$''], rule_type = ESCAPE_DOLLAR, newState = NORMAL\<rparr>,
      \<lparr>match = match_run [CHR ''$'', backslash], rule_type = STRING, newState = NORMAL\<rparr>,
      \<lparr>match = match_literal [CHR ''$''], rule_type = STRING, newState = NORMAL\<rparr>,
      \<lparr>match = match_literal [backslash], rule_type = STRING, newState = NORMAL\<rparr> ]"

definition FieldParseRules :: "LexMatcher list" where
  "FieldParseRules =
    [ \<lparr>match = match_run [CHR '':'', CHR ''}''], rule_type = SYMBOL, newState = FIELD\<rparr>,
      \<lparr>match = match_literal [CHR '':''], rule_type = COLON, newState = FIELD\<rparr>,
      \<lparr>match = match_literal [CHR ''}''], rule_type = CLOSE_BRACKET, newState = NORMAL\<rparr> ]"

fun LexerStateRules :: "LexerState \<Rightarrow> LexMatcher list" where
  "LexerStateRules NORMAL = NormalParseRules"
| "LexerStateRules FIELD = FieldParseRules"

text \<open>The inner \<open>for (const rule of ...)\<close> loop of \<open>lex\<close>: the first rule that matches, with
  its match; \<open>None\<close> is \<open>didMatch = false\<close>.\<close>

fun first_match :: "LexMatcher list \<Rightarrow> string \<Rightarrow> (LexMatcher \<times> string) option" where
  "first_match [] currentInput = None"
| "first_match (rule # rules) currentInput =
     (case match rule currentInput of
        Some m \<Rightarrow> Some (rule, m)
      | None \<Rightarrow> first_match rules currentInput)"

lemma match_literal_Some:
  "match_literal lit inp = Some m \<Longrightarrow> m = lit \<and> take (length lit) inp = lit"
  by (simp add: match_literal_def split: if_splits)

lemma match_run_Some:
  "match_run ex inp = Some m \<Longrightarrow> m \<noteq> [] \<and> m = takeWhile (\<lambda>c. c \<notin> set ex) inp"
  by (auto simp: match_run_def Let_def split: if_splits)

lemma first_match_nonempty:
  "first_match (LexerStateRules state) inp = Some (rule, m) \<Longrightarrow> m \<noteq> []"
  by (cases state)
     (auto simp: NormalParseRules_def FieldParseRules_def
           dest: match_literal_Some match_run_Some split: option.splits)

lemma first_match_shorter:
  "first_match (LexerStateRules state) inp = Some (rule, m) \<Longrightarrow> m \<noteq> [] \<and> length m \<le> length inp"
  by (cases state)
     (auto simp: NormalParseRules_def FieldParseRules_def match_literal_def match_run_def Let_def
                 length_takeWhile_le
           split: option.splits if_splits
           dest!: arg_cong [where f = length])

text \<open>The \<open>while (currentInput.length !== 0)\<close> loop of \<open>lex\<close>, with its three variables.\<close>

function lex_loop :: "LexerState \<Rightarrow> string \<Rightarrow> Token list \<Rightarrow> js_error + Token list" where
  "lex_loop state currentInput result =
     (if length currentInput \<noteq> 0 then
        (case first_match (LexerStateRules state) currentInput of
           None \<Rightarrow> Inl UnableToParse
         | Some (rule, m) \<Rightarrow>
             lex_loop (newState rule) (drop (length m) currentInput)
                      (result @ [\<lparr>tok_type = rule_type rule, tok_text = m\<rparr>]))
      else Inr result)"
  by pat_completeness auto
termination
proof (relation "measure (\<lambda>(state, currentInput, result). length currentInput)")
  show "wf (measure (\<lambda>(state, currentInput, result). length currentInput))"
    by simp
next
  fix state :: LexerState and currentInput :: string and result :: "Token list"
    and x2 :: "LexMatcher \<times> string" and rule m
  assume ne: "length currentInput \<noteq> 0"
    and fm: "first_match (LexerStateRules state) currentInput = Some x2"
    and x2: "(rule, m) = x2"
  from fm x2 have "m \<noteq> []"
    using first_match_nonempty by metis
  with ne show "((newState rule, drop (length m) currentInput,
                  result @ [\<lparr>tok_type = rule_type rule, tok_text = m\<rparr>]),
                 (state, currentInput, result))
                \<in> measure (\<lambda>(state, currentInput, result). length currentInput)"
    by simp
qed

declare lex_loop.simps [simp del]

definition lex :: "string \<Rightarrow> js_error + Token list" where
  "lex input = lex_loop NORMAL input []"


section \<open>The template object and its parser\<close>

text \<open>\<open>interface FieldFormatter\<close>: the two methods of a formatter, as functions of the key.
  \<open>getErrorMessage\<close> returns \<open>None\<close> for \<open>null\<close>. The prefix keeps the names apart from the
  methods of the template object.\<close>

record FieldFormatter =
  ff_formatHtml :: "string \<Rightarrow> string"
  ff_getErrorMessage :: "string \<Rightarrow> string option"

text \<open>\<open>class TemplateString\<close>: its five private fields, without the leading underscore.
  \<open>None\<close> is \<open>null\<close>. \<open>tokens\<close> is declared without a value in the source and only read after
  \<open>_parse\<close> has assigned it; it starts as the empty list here.\<close>

record TemplateString =
  template :: "string option"
  segments :: "Segment list option"
  formatterMap :: "string \<rightharpoonup> FieldFormatter"
  tokenIndex :: nat
  tokens :: "Token list"

definition new_TemplateString :: TemplateString where
  "new_TemplateString =
     \<lparr>template = None, segments = None, formatterMap = Map.empty, tokenIndex = 0, tokens = []\<rparr>"

definition getTemplateString :: "TemplateString \<Rightarrow> string option" where
  "getTemplateString ts = template ts"

text \<open>\<open>_peekTokenType\<close>. Past the end of the array \<open>this._tokens[this._tokenIndex]\<close> is
  \<open>undefined\<close> and reading its \<open>type\<close> raises.\<close>

definition peekTokenType :: "TemplateString \<Rightarrow> js_error + TokenType" where
  "peekTokenType ts =
     (if length (tokens ts) = tokenIndex ts then Inr EOF
      else if tokenIndex ts < length (tokens ts) then Inr (tok_type (tokens ts ! tokenIndex ts))
      else Inl TypeError)"

text \<open>\<open>_takeToken\<close>: \<open>None\<close> is the \<open>undefined\<close> that an index out of range gives.\<close>

definition takeToken :: "TemplateString \<Rightarrow> Token option \<times> TemplateString" where
  "takeToken ts =
     (let ts' = ts\<lparr>tokenIndex := tokenIndex ts + 1\<rparr>
      in (if tokenIndex ts' - 1 < length (tokens ts') then Some (tokens ts' ! (tokenIndex ts' - 1))
          else None,
          ts'))"

definition textTokens :: "TokenType list" where
  "textTokens = [STRING, ESCAPE_DOLLAR]"

text \<open>The \<open>while\<close> loop of \<open>_processTextStateTokens\<close>; \<open>textSegment\<close> is the segment under
  construction.\<close>

function text_loop :: "Segment \<Rightarrow> TemplateString \<Rightarrow> js_error + (Segment \<times> TemplateString)" where
  "text_loop textSegment ts =
     (case peekTokenType ts of
        Inl e \<Rightarrow> Inl e
      | Inr t \<Rightarrow>
          if t \<in> set textTokens then
            (case takeToken ts of
               (None, ts') \<Rightarrow> Inl TypeError
             | (Some token, ts') \<Rightarrow>
                 if tok_type token = STRING then
                   text_loop (TextSegment (seg_text textSegment @ tok_text token)
                                (startColumn textSegment)
                                (endColumn textSegment + length (tok_text token))) ts'
                 else if tok_type token = ESCAPE_DOLLAR then
                   text_loop (TextSegment (seg_text textSegment @ [CHR ''$''])
                                (startColumn textSegment)
                                (endColumn textSegment + 2)) ts'
                 else text_loop textSegment ts')
          else Inr (textSegment, ts))"
  by pat_completeness auto
termination
  by (relation "measure (\<lambda>(textSegment, ts). length (tokens ts) - tokenIndex ts)")
     (auto simp: peekTokenType_def takeToken_def Let_def textTokens_def split: if_splits)

declare text_loop.simps [simp del]

definition processTextStateTokens ::
  "TemplateString \<Rightarrow> js_error + (Segment list \<times> TemplateString)" where
  "processTextStateTokens ts =
     (case text_loop (TextSegment [] 0 0) ts of
        Inl e \<Rightarrow> Inl e
      | Inr (textSegment, ts') \<Rightarrow>
          Inr (if length (seg_text textSegment) \<noteq> 0 then [textSegment] else [], ts'))"

definition fieldTokenTypeList :: "TokenType list" where
  "fieldTokenTypeList = [OPEN_BRACKET, SYMBOL, COLON, SYMBOL, CLOSE_BRACKET]"

text \<open>The \<open>for\<close> loop of \<open>_checkFieldTokens\<close>: the result is \<open>pass\<close>.\<close>

fun check_loop :: "TokenType list \<Rightarrow> TemplateString \<Rightarrow> js_error + (bool \<times> TemplateString)" where
  "check_loop [] ts = Inr (True, ts)"
| "check_loop (type # types) ts =
     (case peekTokenType ts of
        Inl e \<Rightarrow> Inl e
      | Inr t \<Rightarrow>
          if t \<noteq> type then Inr (False, ts)
          else check_loop types (snd (takeToken ts)))"

definition checkFieldTokens :: "TemplateString \<Rightarrow> js_error + (bool \<times> TemplateString)" where
  "checkFieldTokens ts =
     (let startIndex = tokenIndex ts
      in case check_loop fieldTokenTypeList ts of
           Inl e \<Rightarrow> Inl e
         | Inr (pass, ts') \<Rightarrow> Inr (pass, ts'\<lparr>tokenIndex := startIndex\<rparr>))"

text \<open>\<open>_processCompleteField\<close>: five tokens are taken; the text of the second and of the
  fourth is read, which raises when the token is \<open>undefined\<close>.\<close>

definition processCompleteField :: "TemplateString \<Rightarrow> js_error + (Segment \<times> TemplateString)" where
  "processCompleteField ts =
     (let (t1, ts1) = takeToken ts;
          (t2, ts2) = takeToken ts1;
          (t3, ts3) = takeToken ts2;
          (t4, ts4) = takeToken ts3;
          (t5, ts5) = takeToken ts4
      in case t2 of
           None \<Rightarrow> Inl TypeError
         | Some namespaceToken \<Rightarrow>
             (case t4 of
                None \<Rightarrow> Inl TypeError
              | Some keyToken \<Rightarrow>
                  Inr (FieldSegment (tok_text namespaceToken) (tok_text keyToken) 0
                         (2 + length (tok_text namespaceToken) + 1 + length (tok_text keyToken) + 1),
                       ts5)))"

definition nonFieldTypes :: "TokenType list" where
  "nonFieldTypes = [STRING, ESCAPE_DOLLAR, EOF]"

text \<open>The \<open>while\<close> loop of \<open>_processBadField\<close>.\<close>

function bad_loop :: "string \<Rightarrow> TemplateString \<Rightarrow> js_error + (string \<times> TemplateString)" where
  "bad_loop badInput ts =
     (case peekTokenType ts of
        Inl e \<Rightarrow> Inl e
      | Inr t \<Rightarrow>
          if t \<notin> set nonFieldTypes then
            (case takeToken ts of
               (None, ts') \<Rightarrow> Inl TypeError
             | (Some token, ts') \<Rightarrow> bad_loop (badInput @ tok_text token) ts')
          else Inr (badInput, ts))"
  by pat_completeness auto
termination
  by (relation "measure (\<lambda>(badInput, ts). length (tokens ts) - tokenIndex ts)")
     (auto simp: peekTokenType_def takeToken_def Let_def nonFieldTypes_def split: if_splits)

declare bad_loop.simps [simp del]

definition processBadField :: "TemplateString \<Rightarrow> js_error + (Segment \<times> TemplateString)" where
  "processBadField ts =
     (case bad_loop [] ts of
        Inl e \<Rightarrow> Inl e
      | Inr (badInput, ts') \<Rightarrow> Inr (ErrorSegment badInput [] 0 (length badInput), ts'))"

definition processFieldStateTokens ::
  "TemplateString \<Rightarrow> js_error + (Segment list \<times> TemplateString)" where
  "processFieldStateTokens ts =
     (case peekTokenType ts of
        Inl e \<Rightarrow> Inl e
      | Inr t \<Rightarrow>
          if t = EOF then Inr ([], ts)
          else
            (case checkFieldTokens ts of
               Inl e \<Rightarrow> Inl e
             | Inr (pass, ts1) \<Rightarrow>
                 if pass then
                   (case processCompleteField ts1 of
                      Inl e \<Rightarrow> Inl e
                    | Inr (segment, ts2) \<Rightarrow> Inr ([segment], ts2))
                 else
                   (case processBadField ts1 of
                      Inl e \<Rightarrow> Inl e
                    | Inr (segment, ts2) \<Rightarrow> Inr ([segment], ts2))))"


subsection \<open>The cursor, seen as the list of tokens that remain\<close>

text \<open>
  The loop of \<open>_parse\<close> terminates because each iteration moves the cursor forward. To show
  it, each phase is described by what it does to the tokens from the cursor on.
\<close>

text \<open>The tokens from the cursor on.\<close>

definition remaining :: "TemplateString \<Rightarrow> Token list" where
  "remaining ts = drop (tokenIndex ts) (tokens ts)"

text \<open>The cursor is inside the tokens or just behind the last one.\<close>

definition cursor_ok :: "TemplateString \<Rightarrow> bool" where
  "cursor_ok ts = (tokenIndex ts \<le> length (tokens ts))"

text \<open>The object after \<open>n\<close> tokens have been taken.\<close>

definition advance :: "nat \<Rightarrow> TemplateString \<Rightarrow> TemplateString" where
  "advance n ts = ts\<lparr>tokenIndex := tokenIndex ts + n\<rparr>"

lemma advance_simps [simp]:
  "tokens (advance n ts) = tokens ts"
  "tokenIndex (advance n ts) = tokenIndex ts + n"
  "template (advance n ts) = template ts"
  "segments (advance n ts) = segments ts"
  "formatterMap (advance n ts) = formatterMap ts"
  "advance 0 ts = ts"
  "advance m (advance n ts) = advance (n + m) ts"
  by (simp_all add: advance_def add.assoc)

lemma remaining_advance: "remaining (advance n ts) = drop n (remaining ts)"
  by (simp add: remaining_def add.commute)

lemma cursor_ok_advance: "cursor_ok ts \<Longrightarrow> n \<le> length (remaining ts) \<Longrightarrow> cursor_ok (advance n ts)"
  by (simp add: cursor_ok_def remaining_def)

lemma peek_Nil: "cursor_ok ts \<Longrightarrow> remaining ts = [] \<Longrightarrow> peekTokenType ts = Inr EOF"
  by (simp add: cursor_ok_def remaining_def peekTokenType_def)

lemma peek_Cons: "remaining ts = tk # r \<Longrightarrow> peekTokenType ts = Inr (tok_type tk)"
proof -
  assume a: "remaining ts = tk # r"
  then have lt: "tokenIndex ts < length (tokens ts)"
    by (cases "tokenIndex ts < length (tokens ts)") (simp_all add: remaining_def)
  from a have "tokens ts ! tokenIndex ts = tk"
    unfolding remaining_def using lt by (metis nth_via_drop)
  with lt show ?thesis by (simp add: peekTokenType_def)
qed

lemma take_Cons: "remaining ts = tk # r \<Longrightarrow> takeToken ts = (Some tk, advance (Suc 0) ts)"
proof -
  assume a: "remaining ts = tk # r"
  then have lt: "tokenIndex ts < length (tokens ts)"
    by (cases "tokenIndex ts < length (tokens ts)") (simp_all add: remaining_def)
  from a have "tokens ts ! tokenIndex ts = tk"
    unfolding remaining_def using lt by (metis nth_via_drop)
  with lt show ?thesis by (simp add: takeToken_def Let_def advance_def)
qed

lemma take_Nil: "cursor_ok ts \<Longrightarrow> remaining ts = [] \<Longrightarrow> takeToken ts = (None, advance (Suc 0) ts)"
  by (simp add: takeToken_def Let_def advance_def cursor_ok_def remaining_def)

lemma cursor_ok_Cons: "remaining ts = tk # r \<Longrightarrow> cursor_ok ts"
  by (cases "tokenIndex ts \<le> length (tokens ts)") (simp_all add: remaining_def cursor_ok_def)

lemma peek_Inr_cursor_ok: "peekTokenType ts = Inr t \<Longrightarrow> cursor_ok ts"
  by (auto simp: peekTokenType_def cursor_ok_def split: if_splits)

text \<open>What one round of the loop of \<open>_processTextStateTokens\<close> does to the segment under
  construction.\<close>

fun text_add :: "Segment \<Rightarrow> Token \<Rightarrow> Segment" where
  "text_add seg token =
     (if tok_type token = STRING then
        TextSegment (seg_text seg @ tok_text token) (startColumn seg) (endColumn seg + length (tok_text token))
      else if tok_type token = ESCAPE_DOLLAR then
        TextSegment (seg_text seg @ [CHR ''$'']) (startColumn seg) (endColumn seg + 2)
      else seg)"

text \<open>The tokens that the text phase takes, and below the tokens that \<open>_processBadField\<close> takes.\<close>

definition is_text :: "Token \<Rightarrow> bool" where
  "is_text token = (tok_type token \<in> set textTokens)"

lemma text_loop_spec:
  "cursor_ok ts \<Longrightarrow>
   text_loop seg ts =
     Inr (foldl text_add seg (takeWhile is_text (remaining ts)),
          advance (length (takeWhile is_text (remaining ts))) ts)"
proof (induction "remaining ts" arbitrary: seg ts)
  case Nil
  then show ?case
    by (subst text_loop.simps) (simp add: peek_Nil textTokens_def)
next
  case (Cons tk r)
  from Cons.hyps(2) have rem: "remaining ts = tk # r" by simp
  have rem': "r = remaining (advance (Suc 0) ts)"
    using rem by (simp add: remaining_advance)
  have ok': "cursor_ok (advance (Suc 0) ts)"
    using Cons.prems rem by (simp add: cursor_ok_advance)
  have IH: "\<And>seg'. text_loop seg' (advance (Suc 0) ts) =
     Inr (foldl text_add seg' (takeWhile is_text r),
          advance (Suc (length (takeWhile is_text r))) ts)"
  proof -
    fix seg'
    have r2: "remaining (advance (Suc 0) ts) = r" using rem' by simp
    show "text_loop seg' (advance (Suc 0) ts) =
     Inr (foldl text_add seg' (takeWhile is_text r),
          advance (Suc (length (takeWhile is_text r))) ts)"
      using Cons.hyps(1) [OF rem' ok', of seg'] by (simp add: r2)
  qed
  show ?case
  proof (cases "is_text tk")
    case True
    then show ?thesis
      by (subst text_loop.simps)
         (auto simp: peek_Cons [OF rem] take_Cons [OF rem] rem is_text_def IH textTokens_def)
  next
    case False
    then show ?thesis
      by (subst text_loop.simps) (simp add: peek_Cons [OF rem] rem is_text_def)
  qed
qed


definition is_bad :: "Token \<Rightarrow> bool" where
  "is_bad token = (tok_type token \<notin> set nonFieldTypes)"

lemma bad_loop_spec:
  "cursor_ok ts \<Longrightarrow>
   bad_loop b ts =
     Inr (b @ concat (map tok_text (takeWhile is_bad (remaining ts))),
          advance (length (takeWhile is_bad (remaining ts))) ts)"
proof (induction "remaining ts" arbitrary: b ts)
  case Nil
  then show ?case
    by (subst bad_loop.simps) (simp add: peek_Nil nonFieldTypes_def)
next
  case (Cons tk r)
  from Cons.hyps(2) have rem: "remaining ts = tk # r" by simp
  have r2: "remaining (advance (Suc 0) ts) = r"
    using rem by (simp add: remaining_advance)
  have ok': "cursor_ok (advance (Suc 0) ts)"
    using Cons.prems rem by (simp add: cursor_ok_advance)
  have IH: "\<And>b'. bad_loop b' (advance (Suc 0) ts) =
     Inr (b' @ concat (map tok_text (takeWhile is_bad r)),
          advance (Suc (length (takeWhile is_bad r))) ts)"
    using Cons.hyps(1) [OF r2 [symmetric] ok'] by (simp add: r2)
  show ?case
  proof (cases "is_bad tk")
    case True
    then show ?thesis
      by (subst bad_loop.simps)
         (simp add: peek_Cons [OF rem] take_Cons [OF rem] rem is_bad_def IH)
  next
    case False
    then show ?thesis
      by (subst bad_loop.simps) (simp add: peek_Cons [OF rem] rem is_bad_def)
  qed
qed

lemma check_loop_spec:
  "cursor_ok ts \<Longrightarrow> EOF \<notin> set types \<Longrightarrow>
   \<exists>k. check_loop types ts =
         Inr (map tok_type (take (length types) (remaining ts)) = types, advance k ts)"
proof (induction types arbitrary: ts)
  case Nil
  have "check_loop [] ts = Inr (True, advance 0 ts)" by simp
  then show ?case by (intro exI [of _ 0]) simp
next
  case (Cons type types)
  show ?case
  proof (cases "remaining ts")
    case Nil
    with Cons.prems have "check_loop (type # types) ts = Inr (False, advance 0 ts)"
      by (auto simp: peek_Nil)
    with Nil show ?thesis by (intro exI [of _ 0]) simp
  next
    case (Cons tk r)
    note rem = this
    have r2: "remaining (advance (Suc 0) ts) = r"
      using rem by (simp add: remaining_advance)
    have ok': "cursor_ok (advance (Suc 0) ts)"
      using Cons.prems rem by (simp add: cursor_ok_advance)
    show ?thesis
    proof (cases "tok_type tk = type")
      case False
      then have "check_loop (type # types) ts = Inr (False, advance 0 ts)"
        by (simp add: peek_Cons [OF rem])
      with False rem show ?thesis by (intro exI [of _ 0]) simp
    next
      case True
      from Cons.prems(2) have "EOF \<notin> set types" by simp
      from Cons.IH [OF ok' this] obtain k where
        k: "check_loop types (advance (Suc 0) ts) =
              Inr (map tok_type (take (length types) r) = types, advance k (advance (Suc 0) ts))"
        by (auto simp: r2)
      from True k have "check_loop (type # types) ts =
          Inr (map tok_type (take (length (type # types)) (remaining ts)) = type # types,
               advance (Suc k) ts)"
        by (simp add: peek_Cons [OF rem] take_Cons [OF rem] rem)
      then show ?thesis by blast
    qed
  qed
qed

text \<open>The test of \<open>_checkFieldTokens\<close> on the tokens that remain.\<close>

definition field_ahead :: "Token list \<Rightarrow> bool" where
  "field_ahead r = (map tok_type (take 5 r) = fieldTokenTypeList)"

lemma checkFieldTokens_spec:
  "cursor_ok ts \<Longrightarrow> checkFieldTokens ts = Inr (field_ahead (remaining ts), ts)"
proof -
  assume ok: "cursor_ok ts"
  have "EOF \<notin> set fieldTokenTypeList" by (simp add: fieldTokenTypeList_def)
  from check_loop_spec [OF ok this] obtain k where
    "check_loop fieldTokenTypeList ts =
       Inr (map tok_type (take (length fieldTokenTypeList) (remaining ts)) = fieldTokenTypeList,
            advance k ts)" ..
  moreover have "length fieldTokenTypeList = 5" by (simp add: fieldTokenTypeList_def)
  moreover have "(advance k ts)\<lparr>tokenIndex := tokenIndex ts\<rparr> = ts"
    by (simp add: advance_def)
  ultimately show ?thesis
    by (simp add: checkFieldTokens_def field_ahead_def Let_def)
qed

lemma processCompleteField_spec:
  assumes "remaining ts = t1 # t2 # t3 # t4 # t5 # r"
  shows "processCompleteField ts =
     Inr (FieldSegment (tok_text t2) (tok_text t4) 0
            (2 + length (tok_text t2) + 1 + length (tok_text t4) + 1),
          advance 5 ts)"
proof -
  have 1: "takeToken ts = (Some t1, advance (Suc 0) ts)"
    using assms by (rule take_Cons)
  have "remaining (advance (Suc 0) ts) = t2 # t3 # t4 # t5 # r"
    using assms by (simp add: remaining_advance)
  then have 2: "takeToken (advance (Suc 0) ts) = (Some t2, advance 2 ts)"
    by (simp add: take_Cons numeral_2_eq_2)
  have "remaining (advance 2 ts) = t3 # t4 # t5 # r"
    using assms by (simp add: remaining_advance)
  then have 3: "takeToken (advance 2 ts) = (Some t3, advance 3 ts)"
    by (simp add: take_Cons numeral_3_eq_3)
  have "remaining (advance 3 ts) = t4 # t5 # r"
    using assms by (simp add: remaining_advance)
  then have 4: "takeToken (advance 3 ts) = (Some t4, advance 4 ts)"
    by (simp add: take_Cons)
  have "remaining (advance 4 ts) = t5 # r"
    using assms by (simp add: remaining_advance)
  then have 5: "takeToken (advance 4 ts) = (Some t5, advance 5 ts)"
    by (simp add: take_Cons)
  show ?thesis
    by (simp add: processCompleteField_def 1 2 3 4 5)
qed


text \<open>The two phases of an iteration on the tokens that remain: the segments they return and
  the number of tokens they take.\<close>

definition text_phase :: "Token list \<Rightarrow> Segment list \<times> nat" where
  "text_phase r =
     (let xs = takeWhile is_text r;
          seg = foldl text_add (TextSegment [] 0 0) xs
      in (if seg_text seg \<noteq> [] then [seg] else [], length xs))"

definition field_phase :: "Token list \<Rightarrow> Segment list \<times> nat" where
  "field_phase r =
     (case r of
        [] \<Rightarrow> ([], 0)
      | tk # _ \<Rightarrow>
          if tok_type tk = EOF then ([], 0)
          else if field_ahead r then
            ([FieldSegment (tok_text (r ! 1)) (tok_text (r ! 3)) 0
                (2 + length (tok_text (r ! 1)) + 1 + length (tok_text (r ! 3)) + 1)], 5)
          else
            (let b = concat (map tok_text (takeWhile is_bad r))
             in ([ErrorSegment b [] 0 (length b)], length (takeWhile is_bad r))))"

lemma processTextStateTokens_spec:
  "cursor_ok ts \<Longrightarrow>
   processTextStateTokens ts =
     Inr (fst (text_phase (remaining ts)), advance (snd (text_phase (remaining ts))) ts)"
  by (simp add: processTextStateTokens_def text_loop_spec text_phase_def Let_def)

lemma field_ahead_length: "field_ahead r \<Longrightarrow> \<exists>t1 t2 t3 t4 t5 r'. r = t1 # t2 # t3 # t4 # t5 # r'"
proof -
  assume "field_ahead r"
  then have "length (take 5 r) = 5"
    unfolding field_ahead_def fieldTokenTypeList_def
    by (metis length_map length_Cons list.size(3) numeral_eq_Suc pred_numeral_simps(2,3) Suc_eq_plus1
          add.commute add_2_eq_Suc semiring_norm(26,27) numeral_2_eq_2 numeral_3_eq_3 eval_nat_numeral(3))
  then have "5 \<le> length r" by simp
  then show ?thesis
    by (cases r; simp; rename_tac a r1; case_tac r1; simp; rename_tac b r2; case_tac r2; simp;
        rename_tac c r3; case_tac r3; simp; rename_tac d r4; case_tac r4; simp)
qed

lemma processFieldStateTokens_spec:
  assumes ok: "cursor_ok ts"
  shows "processFieldStateTokens ts =
     Inr (fst (field_phase (remaining ts)), advance (snd (field_phase (remaining ts))) ts)"
proof (cases "remaining ts")
  case Nil
  then show ?thesis
    using ok by (simp add: processFieldStateTokens_def peek_Nil field_phase_def)
next
  case (Cons tk r)
  note rem = this
  show ?thesis
  proof (cases "tok_type tk = EOF")
    case True
    then show ?thesis
      by (simp add: processFieldStateTokens_def peek_Cons [OF rem] field_phase_def rem)
  next
    case notEOF: False
    show ?thesis
    proof (cases "field_ahead (remaining ts)")
      case True
      then obtain t1 t2 t3 t4 t5 r' where r5: "remaining ts = t1 # t2 # t3 # t4 # t5 # r'"
        using field_ahead_length by blast
      with rem have "t1 = tk" by simp
      with notEOF True r5 show ?thesis
        by (simp add: processFieldStateTokens_def peek_Cons [OF rem] checkFieldTokens_spec [OF ok]
                      processCompleteField_spec [OF r5] field_phase_def)
    next
      case False
      with notEOF show ?thesis
        by (simp add: processFieldStateTokens_def peek_Cons [OF rem] checkFieldTokens_spec [OF ok]
                      processBadField_def bad_loop_spec [OF ok] field_phase_def rem Let_def)
    qed
  qed
qed

lemma text_phase_le: "snd (text_phase r) \<le> length r"
  by (simp add: text_phase_def Let_def length_takeWhile_le)

lemma field_phase_le: "snd (field_phase r) \<le> length r"
  by (auto simp: field_phase_def Let_def length_takeWhile_le split: list.splits
           dest: field_ahead_length)

lemma dropWhile_eq_drop_takeWhile: "drop (length (takeWhile P xs)) xs = dropWhile P xs"
  by (induction xs) auto

lemma phases_advance:
  assumes "r = tk # r'" and "tok_type tk \<noteq> EOF"
  shows "0 < snd (text_phase r) + snd (field_phase (drop (snd (text_phase r)) r))"
proof (cases "is_text tk")
  case True
  with assms show ?thesis by (simp add: text_phase_def Let_def)
next
  case False
  with assms have "snd (text_phase r) = 0" by (simp add: text_phase_def Let_def)
  moreover have "0 < snd (field_phase r)"
  proof (cases "field_ahead r")
    case True
    with assms show ?thesis by (simp add: field_phase_def)
  next
    case nf: False
    from False assms(2) have "is_bad tk"
      by (simp add: is_bad_def is_text_def nonFieldTypes_def textTokens_def)
    with nf assms show ?thesis by (simp add: field_phase_def Let_def)
  qed
  ultimately show ?thesis by simp
qed

lemma peek_not_EOF:
  assumes "peekTokenType ts = Inr t" and "t \<noteq> EOF"
  shows "\<exists>tk r. remaining ts = tk # r \<and> tok_type tk \<noteq> EOF"
proof -
  from assms have lt: "tokenIndex ts < length (tokens ts)"
    by (auto simp: peekTokenType_def split: if_splits)
  then have "remaining ts = tokens ts ! tokenIndex ts # drop (Suc (tokenIndex ts)) (tokens ts)"
    by (simp add: remaining_def Cons_nth_drop_Suc)
  moreover from assms lt have "tok_type (tokens ts ! tokenIndex ts) \<noteq> EOF"
    by (auto simp: peekTokenType_def split: if_splits)
  ultimately show ?thesis by blast
qed

text \<open>One iteration of the loop of \<open>_parse\<close>: both phases, run one after the other.\<close>

lemma iteration_spec:
  assumes ok: "cursor_ok ts"
  shows "\<exists>n1 n2. processTextStateTokens ts = Inr (fst (text_phase (remaining ts)), advance n1 ts)
     \<and> processFieldStateTokens (advance n1 ts) =
         Inr (fst (field_phase (drop n1 (remaining ts))), advance (n1 + n2) ts)
     \<and> n1 = snd (text_phase (remaining ts))
     \<and> n2 = snd (field_phase (drop n1 (remaining ts)))
     \<and> n1 + n2 \<le> length (remaining ts)"
proof -
  let ?n1 = "snd (text_phase (remaining ts))"
  let ?n2 = "snd (field_phase (drop ?n1 (remaining ts)))"
  have ok1: "cursor_ok (advance ?n1 ts)"
    using ok text_phase_le by (simp add: cursor_ok_advance)
  have "?n2 \<le> length (drop ?n1 (remaining ts))" by (rule field_phase_le)
  then have le: "?n1 + ?n2 \<le> length (remaining ts)"
    using text_phase_le [of "remaining ts"] by simp
  show ?thesis
    using processTextStateTokens_spec [OF ok] processFieldStateTokens_spec [OF ok1] le
    by (simp add: remaining_advance)
qed

subsection \<open>\<open>_parse\<close> and the public methods\<close>

text \<open>The \<open>while (this._peekTokenType() !== TokenType.EOF)\<close> loop of \<open>_parse\<close>.\<close>

function parse_loop :: "Segment list \<Rightarrow> TemplateString \<Rightarrow> js_error + (Segment list \<times> TemplateString)" where
  "parse_loop result ts =
     (case peekTokenType ts of
        Inl e \<Rightarrow> Inl e
      | Inr t \<Rightarrow>
          if t \<noteq> EOF then
            (case processTextStateTokens ts of
               Inl e \<Rightarrow> Inl e
             | Inr (segs1, ts1) \<Rightarrow>
                 (case processFieldStateTokens ts1 of
                    Inl e \<Rightarrow> Inl e
                  | Inr (segs2, ts2) \<Rightarrow> parse_loop ((result @ segs1) @ segs2) ts2))
          else Inr (result, ts))"
  by pat_completeness auto
termination
proof (relation "measure (\<lambda>(result, ts). length (tokens ts) - tokenIndex ts)")
  show "wf (measure (\<lambda>(result, ts). length (tokens ts) - tokenIndex ts))" by simp
next
  fix result :: "Segment list" and ts :: TemplateString and t x2 segs1 ts1 x2a segs2 ts2
  assume peek: "peekTokenType ts = Inr t" and ne: "t \<noteq> EOF"
    and tph: "processTextStateTokens ts = Inr x2" and x2: "(segs1, ts1) = x2"
    and fld: "processFieldStateTokens ts1 = Inr x2a" and x2a: "(segs2, ts2) = x2a"
  from peek have ok: "cursor_ok ts" by (rule peek_Inr_cursor_ok)
  from peek ne obtain tk r where rem: "remaining ts = tk # r" and tk: "tok_type tk \<noteq> EOF"
    using peek_not_EOF by blast
  from iteration_spec [OF ok] obtain n1 n2 where
    1: "processTextStateTokens ts = Inr (fst (text_phase (remaining ts)), advance n1 ts)" and
    2: "processFieldStateTokens (advance n1 ts) =
         Inr (fst (field_phase (drop n1 (remaining ts))), advance (n1 + n2) ts)" and
    n1: "n1 = snd (text_phase (remaining ts))" and
    n2: "n2 = snd (field_phase (drop n1 (remaining ts)))" and
    le: "n1 + n2 \<le> length (remaining ts)"
    by blast
  from 1 tph x2 have ts1: "ts1 = advance n1 ts" by auto
  with 2 fld x2a have ts2: "ts2 = advance (n1 + n2) ts" by auto
  have pos: "0 < n1 + n2"
    using phases_advance [OF rem tk] n1 n2 by simp
  from le have "tokenIndex ts + (n1 + n2) \<le> length (tokens ts)"
    using ok by (simp add: remaining_def cursor_ok_def)
  with pos ts2 show "(((result @ segs1) @ segs2, ts2), (result, ts))
      \<in> measure (\<lambda>(result, ts). length (tokens ts) - tokenIndex ts)"
    by auto
qed

declare parse_loop.simps [simp del]

text \<open>Assigning \<open>startColumn\<close> and \<open>endColumn\<close> of a segment.\<close>

fun set_columns :: "Segment \<Rightarrow> nat \<Rightarrow> nat \<Rightarrow> Segment" where
  "set_columns (TextSegment t _ _) s e = TextSegment t s e"
| "set_columns (FieldSegment n k _ _) s e = FieldSegment n k s e"
| "set_columns (ErrorSegment t m _ _) s e = ErrorSegment t m s e"

text \<open>The \<open>for\<close> loop of \<open>_parse\<close> that corrects the columns: on entry \<open>endColumn\<close> holds the
  width of the segment, \<open>i\<close> is the running column.\<close>

fun correct_columns :: "nat \<Rightarrow> Segment list \<Rightarrow> Segment list" where
  "correct_columns i [] = []"
| "correct_columns i (segment # rest) =
     set_columns segment i (i + endColumn segment) # correct_columns (i + endColumn segment) rest"

definition parse :: "string \<Rightarrow> TemplateString \<Rightarrow> js_error + (Segment list \<times> TemplateString)" where
  "parse templateString ts =
     (case lex templateString of
        Inl e \<Rightarrow> Inl e
      | Inr toks \<Rightarrow>
          (case parse_loop [] (ts\<lparr>tokens := toks, tokenIndex := 0\<rparr>) of
             Inl e \<Rightarrow> Inl e
           | Inr (result, ts') \<Rightarrow> Inr (correct_columns 0 result, ts')))"

text \<open>\<open>setTemplateString\<close>; an exception leaves the method without a new object state.\<close>

definition setTemplateString :: "string \<Rightarrow> TemplateString \<Rightarrow> js_error + TemplateString" where
  "setTemplateString templateString ts =
     (case parse templateString (ts\<lparr>template := Some templateString\<rparr>) of
        Inl e \<Rightarrow> Inl e
      | Inr (segs, ts') \<Rightarrow> Inr (ts'\<lparr>segments := Some segs\<rparr>))"

text \<open>\<open>String.prototype.toLowerCase\<close> on the characters U+0000 to U+00FF. The letters with
  a lower-case form are A to Z (65 to 90) and the capitals U+00C0 to U+00DE (192 to 222)
  without the multiplication sign U+00D7 (215); the lower-case form is 32 further. Every
  other character of the range is left as it is, and the length never changes.\<close>

definition is_upper :: "char \<Rightarrow> bool" where
  "is_upper c =
     (let n = of_char c :: nat
      in (65 \<le> n \<and> n \<le> 90) \<or> (192 \<le> n \<and> n \<le> 214) \<or> (216 \<le> n \<and> n \<le> 222))"

definition lower_char :: "char \<Rightarrow> char" where
  "lower_char c = (if is_upper c then char_of (of_char c + 32 :: nat) else c)"

definition toLowerCase :: "string \<Rightarrow> string" where
  "toLowerCase s = map lower_char s"

definition addFormatter :: "string \<Rightarrow> FieldFormatter \<Rightarrow> TemplateString \<Rightarrow> TemplateString" where
  "addFormatter ns formatter ts =
     ts\<lparr>formatterMap := (formatterMap ts)(toLowerCase ns \<mapsto> formatter)\<rparr>"


section \<open>Rendering\<close>

text \<open>
  A render returns the HTML together with the calls it made on formatters, in the order
  it made them: the key of the formatter in the map, and the argument. \<open>he.encode\<close> is a
  library function and a parameter of the model.
\<close>

datatype formatter_call = Call_formatHtml string string | Call_getErrorMessage string string

text \<open>The function that \<open>formatHtml\<close> maps over the segments.\<close>

definition formatHtml_segment ::
  "(string \<Rightarrow> string) \<Rightarrow> TemplateString \<Rightarrow> Segment \<Rightarrow> string \<times> formatter_call list" where
  "formatHtml_segment he_encode ts segment =
     (case segment of
        TextSegment t _ _ \<Rightarrow> (he_encode t, [])
      | FieldSegment ns k _ _ \<Rightarrow>
          (case formatterMap ts (toLowerCase ns) of
             None \<Rightarrow> ([], [])
           | Some formatter \<Rightarrow> (ff_formatHtml formatter k, [Call_formatHtml (toLowerCase ns) k]))
      | ErrorSegment _ _ _ _ \<Rightarrow> ([], []))"

text \<open>\<open>formatHtml\<close>: \<open>this._segments.map(...).join("")\<close>; \<open>_segments\<close> is \<open>null\<close> until a
  template has been set.\<close>

definition formatHtml ::
  "(string \<Rightarrow> string) \<Rightarrow> TemplateString \<Rightarrow> js_error + (string \<times> formatter_call list)" where
  "formatHtml he_encode ts =
     (case segments ts of
        None \<Rightarrow> Inl TypeError
      | Some segs \<Rightarrow>
          (let parts = map (formatHtml_segment he_encode ts) segs
           in Inr (concat (map fst parts), concat (map snd parts))))"

definition formatDiagnosticHtml_segment ::
  "(string \<Rightarrow> string) \<Rightarrow> TemplateString \<Rightarrow> Segment \<Rightarrow> string \<times> formatter_call list" where
  \<open>formatDiagnosticHtml_segment he_encode ts segment =
     (case segment of
        TextSegment t _ _ \<Rightarrow> (''<span class="segment_text">'' @ he_encode t @ ''</span>'', [])
      | FieldSegment ns k _ _ \<Rightarrow>
          (case formatterMap ts (toLowerCase ns) of
             None \<Rightarrow>
               (''<span class="segment_error">Unknown '' @ [apostrophe] @ ns @ [apostrophe]
                  @ ''</span>'', [])
           | Some formatter \<Rightarrow>
               (case ff_getErrorMessage formatter k of
                  None \<Rightarrow>
                    (''<span class="segment_field">'' @ ff_formatHtml formatter k @ ''</span>'',
                     [Call_getErrorMessage (toLowerCase ns) k, Call_formatHtml (toLowerCase ns) k])
                | Some errorMsg \<Rightarrow>
                    (''<span class="segment_error">'' @ errorMsg @ ''</span>'',
                     [Call_getErrorMessage (toLowerCase ns) k])))
      | ErrorSegment t _ _ _ \<Rightarrow>
          (''<span class="segment_error">Unknown '' @ [apostrophe] @ t @ [apostrophe]
             @ ''</span>'', []))\<close>

definition formatDiagnosticHtml ::
  "(string \<Rightarrow> string) \<Rightarrow> TemplateString \<Rightarrow> js_error + (string \<times> formatter_call list)" where
  "formatDiagnosticHtml he_encode ts =
     (case segments ts of
        None \<Rightarrow> Inl TypeError
      | Some segs \<Rightarrow>
          (let parts = map (formatDiagnosticHtml_segment he_encode ts) segs
           in Inr (concat (map fst parts), concat (map snd parts))))"


section \<open>The lexer and the parser as functions on lists\<close>

text \<open>
  The lexer never reaches its \<open>throw\<close>, and the parser never reads past the tokens, so both
  are described by functions that return the tokens and the segments themselves. The
  properties of the code are proved on these.
\<close>

lemma first_match_exhaustive:
  "first_match (LexerStateRules state) (c # cs) \<noteq> None"
proof (cases state)
  case NORMAL
  show ?thesis
  proof (cases "c = CHR ''$'' \<or> c = backslash")
    case True
    then show ?thesis
      using NORMAL
      by (auto simp: NormalParseRules_def match_literal_def match_run_def split: option.splits)
  next
    case False
    then show ?thesis
      using NORMAL
      by (auto simp: NormalParseRules_def match_literal_def match_run_def split: option.splits)
  qed
next
  case FIELD
  show ?thesis
  proof (cases "c = CHR '':'' \<or> c = CHR ''}''")
    case True
    then show ?thesis
      using FIELD
      by (auto simp: FieldParseRules_def match_literal_def match_run_def split: option.splits)
  next
    case False
    then show ?thesis
      using FIELD
      by (auto simp: FieldParseRules_def match_literal_def match_run_def split: option.splits)
  qed
qed

lemma lex_loop_total: "\<exists>toks. lex_loop state inp acc = Inr toks"
proof (induction state inp acc rule: lex_loop.induct)
  case (1 state currentInput result)
  show ?case
  proof (cases currentInput)
    case Nil
    then show ?thesis by (simp add: lex_loop.simps)
  next
    case (Cons c cs)
    then obtain rule m where fm: "first_match (LexerStateRules state) currentInput = Some (rule, m)"
      using first_match_exhaustive [of state c cs] by (cases "first_match (LexerStateRules state) currentInput") auto
    from Cons have ne: "length currentInput \<noteq> 0" by simp
    from "1.IH" [OF ne fm refl] obtain toks where
      "lex_loop (newState rule) (drop (length m) currentInput)
         (result @ [\<lparr>tok_type = rule_type rule, tok_text = m\<rparr>]) = Inr toks" ..
    with ne fm show ?thesis by (subst lex_loop.simps) simp
  qed
qed

text \<open>The tokens of an input, from a lexer state on.\<close>

function toks_of :: "LexerState \<Rightarrow> string \<Rightarrow> Token list" where
  "toks_of state inp =
     (if inp = [] then []
      else case first_match (LexerStateRules state) inp of
             None \<Rightarrow> []
           | Some (rule, m) \<Rightarrow>
               \<lparr>tok_type = rule_type rule, tok_text = m\<rparr>
                 # toks_of (newState rule) (drop (length m) inp))"
  by pat_completeness auto
termination
proof (relation "measure (\<lambda>(state, inp). length inp)")
  show "wf (measure (\<lambda>(state, inp). length inp))" by simp
next
  fix state :: LexerState and inp :: string and x2 :: "LexMatcher \<times> string" and rule m
  assume "inp \<noteq> []" and "first_match (LexerStateRules state) inp = Some x2" and "(rule, m) = x2"
  then have "m \<noteq> []" using first_match_nonempty by metis
  with \<open>inp \<noteq> []\<close> show "((newState rule, drop (length m) inp), (state, inp))
      \<in> measure (\<lambda>(state, inp). length inp)" by simp
qed

declare toks_of.simps [simp del]

lemma lex_loop_toks_of: "lex_loop state inp acc = Inr (acc @ toks_of state inp)"
proof (induction state inp acc rule: lex_loop.induct)
  case (1 state currentInput result)
  show ?case
  proof (cases currentInput)
    case Nil
    then show ?thesis by (simp add: lex_loop.simps toks_of.simps)
  next
    case (Cons c cs)
    then obtain rule m where fm: "first_match (LexerStateRules state) currentInput = Some (rule, m)"
      using first_match_exhaustive [of state c cs]
      by (cases "first_match (LexerStateRules state) currentInput") auto
    from Cons have ne: "length currentInput \<noteq> 0" by simp
    from "1.IH" [OF ne fm refl] ne fm show ?thesis
      by (subst lex_loop.simps, subst toks_of.simps) simp
  qed
qed

lemma lex_toks_of: "lex inp = Inr (toks_of NORMAL inp)"
  by (simp add: lex_def lex_loop_toks_of)

text \<open>The segments that the loop of \<open>_parse\<close> appends, columns not yet corrected.\<close>

function segs_of :: "Token list \<Rightarrow> Segment list" where
  "segs_of r =
     (case r of
        [] \<Rightarrow> []
      | tk # _ \<Rightarrow>
          if tok_type tk = EOF then []
          else fst (text_phase r) @ fst (field_phase (drop (snd (text_phase r)) r))
               @ segs_of (drop (snd (text_phase r) + snd (field_phase (drop (snd (text_phase r)) r))) r))"
  by pat_completeness auto
termination
proof (relation "measure length")
  show "wf (measure length)" by simp
next
  fix r :: "Token list" and tk r'
  assume "r = tk # r'" and "tok_type tk \<noteq> EOF"
  from phases_advance [OF this]
  show "(drop (snd (text_phase r) + snd (field_phase (drop (snd (text_phase r)) r))) r, r) \<in> measure length"
    using \<open>r = tk # r'\<close> by auto
qed

declare segs_of.simps [simp del]

lemma peek_EOF_segs_of:
  assumes "peekTokenType ts = Inr EOF"
  shows "segs_of (remaining ts) = []"
proof (cases "remaining ts")
  case Nil
  then show ?thesis by (simp add: segs_of.simps)
next
  case (Cons tk r)
  from peek_Cons [OF this] assms have "tok_type tk = EOF" by simp
  with Cons show ?thesis by (simp add: segs_of.simps)
qed

lemma parse_loop_spec:
  "cursor_ok ts \<Longrightarrow>
   \<exists>n. parse_loop result ts = Inr (result @ segs_of (remaining ts), advance n ts)"
proof (induction result ts rule: parse_loop.induct)
  case (1 result ts)
  from "1.prems" have "\<exists>t. peekTokenType ts = Inr t"
    by (cases "length (tokens ts) = tokenIndex ts") (auto simp: peekTokenType_def cursor_ok_def)
  then obtain t where peek: "peekTokenType ts = Inr t" ..
  show ?case
  proof (cases "t = EOF")
    case True
    with peek have "parse_loop result ts = Inr (result, advance 0 ts)"
      by (subst parse_loop.simps) simp
    moreover from True peek have "segs_of (remaining ts) = []"
      by (simp add: peek_EOF_segs_of)
    ultimately show ?thesis by (intro exI [of _ 0]) simp
  next
    case False
    from peek False obtain tk r where rem: "remaining ts = tk # r" and tk: "tok_type tk \<noteq> EOF"
      using peek_not_EOF by blast
    from iteration_spec [OF "1.prems"] obtain n1 n2 where
      p1: "processTextStateTokens ts = Inr (fst (text_phase (remaining ts)), advance n1 ts)" and
      p2: "processFieldStateTokens (advance n1 ts) =
           Inr (fst (field_phase (drop n1 (remaining ts))), advance (n1 + n2) ts)" and
      n1: "n1 = snd (text_phase (remaining ts))" and
      n2: "n2 = snd (field_phase (drop n1 (remaining ts)))" and
      le: "n1 + n2 \<le> length (remaining ts)"
      by blast
    have ok2: "cursor_ok (advance (n1 + n2) ts)"
      using "1.prems" le by (rule cursor_ok_advance)
    from "1.IH" [OF peek False p1 refl p2 refl ok2] obtain n where
      "parse_loop ((result @ fst (text_phase (remaining ts))) @ fst (field_phase (drop n1 (remaining ts))))
         (advance (n1 + n2) ts) =
       Inr (((result @ fst (text_phase (remaining ts))) @ fst (field_phase (drop n1 (remaining ts))))
             @ segs_of (remaining (advance (n1 + n2) ts)), advance n (advance (n1 + n2) ts))"
      by blast
    with peek False p1 p2 have "parse_loop result ts =
       Inr (((result @ fst (text_phase (remaining ts))) @ fst (field_phase (drop n1 (remaining ts))))
             @ segs_of (remaining (advance (n1 + n2) ts)), advance (n1 + n2 + n) ts)"
      by (subst parse_loop.simps) simp
    moreover have "segs_of (remaining ts) =
        fst (text_phase (remaining ts)) @ fst (field_phase (drop n1 (remaining ts)))
          @ segs_of (remaining (advance (n1 + n2) ts))"
      using rem tk n1 n2 by (subst segs_of.simps) (simp add: remaining_advance)
    ultimately show ?thesis by auto
  qed
qed

lemma parse_spec:
  "\<exists>n. parse t ts =
      Inr (correct_columns 0 (segs_of (toks_of NORMAL t)),
           ts\<lparr>tokens := toks_of NORMAL t, tokenIndex := n\<rparr>)"
proof -
  let ?ts = "ts\<lparr>tokens := toks_of NORMAL t, tokenIndex := 0\<rparr>"
  have ok: "cursor_ok ?ts" by (simp add: cursor_ok_def)
  have rem: "remaining ?ts = toks_of NORMAL t" by (simp add: remaining_def)
  from parse_loop_spec [OF ok, of "[]"] obtain n where
    "parse_loop [] ?ts = Inr (segs_of (toks_of NORMAL t), advance n ?ts)"
    by (auto simp: rem)
  then have "parse t ts = Inr (correct_columns 0 (segs_of (toks_of NORMAL t)),
           ts\<lparr>tokens := toks_of NORMAL t, tokenIndex := n\<rparr>)"
    by (simp add: parse_def lex_toks_of advance_def)
  then show ?thesis ..
qed

lemma setTemplateString_spec:
  "\<exists>n. setTemplateString t ts =
      Inr (ts\<lparr>template := Some t,
               segments := Some (correct_columns 0 (segs_of (toks_of NORMAL t))),
               tokenIndex := n, tokens := toks_of NORMAL t\<rparr>)"
proof -
  from parse_spec [of t "ts\<lparr>template := Some t\<rparr>"] obtain n where
    "parse t (ts\<lparr>template := Some t\<rparr>) =
      Inr (correct_columns 0 (segs_of (toks_of NORMAL t)),
           ts\<lparr>template := Some t, tokens := toks_of NORMAL t, tokenIndex := n\<rparr>)"
    by auto
  then have "setTemplateString t ts =
      Inr (ts\<lparr>template := Some t,
               segments := Some (correct_columns 0 (segs_of (toks_of NORMAL t))),
               tokenIndex := n, tokens := toks_of NORMAL t\<rparr>)"
    by (simp add: setTemplateString_def)
  then show ?thesis ..
qed

text \<open>The characters of the two character classes of the rules.\<close>

definition plain_char :: "char \<Rightarrow> bool" where
  "plain_char c = (c \<notin> set [CHR ''$'', backslash])"

definition symbol_char :: "char \<Rightarrow> bool" where
  "symbol_char c = (c \<notin> set [CHR '':'', CHR ''}''])"

lemma toks_of_Nil [simp]: "toks_of state [] = []"
  by (simp add: toks_of.simps)

lemma toks_of_step:
  "first_match (LexerStateRules state) (c # cs) = Some (rule, m) \<Longrightarrow>
   toks_of state (c # cs) =
     \<lparr>tok_type = rule_type rule, tok_text = m\<rparr> # toks_of (newState rule) (drop (length m) (c # cs))"
  by (subst toks_of.simps) simp

lemma backslash_neq [simp]: "backslash \<noteq> CHR ''$''" "CHR ''$'' \<noteq> backslash"
  by (simp_all add: backslash_def)

lemma plain_char_eq: "(\<lambda>c. c \<noteq> CHR ''$'' \<and> c \<noteq> backslash) = plain_char"
  by (auto simp: plain_char_def)

lemma symbol_char_eq: "(\<lambda>c. c \<noteq> CHR '':'' \<and> c \<noteq> CHR ''}'') = symbol_char"
  by (auto simp: symbol_char_def)

lemma normal_open:
  "toks_of NORMAL (CHR ''$'' # CHR ''{'' # r) =
     \<lparr>tok_type = OPEN_BRACKET, tok_text = ''${''\<rparr> # toks_of FIELD r"
  by (subst toks_of_step [where rule = "NormalParseRules ! 0" and m = "''${''"])
     (simp_all add: NormalParseRules_def match_literal_def)

lemma normal_escape:
  "toks_of NORMAL (backslash # CHR ''$'' # r) =
     \<lparr>tok_type = ESCAPE_DOLLAR, tok_text = [backslash, CHR ''$'']\<rparr> # toks_of NORMAL r"
  by (subst toks_of_step [where rule = "NormalParseRules ! 1" and m = "[backslash, CHR ''$'']"])
     (simp_all add: NormalParseRules_def match_literal_def)

lemma match_run_plain:
  "match_run [CHR ''$'', backslash] inp =
     (if takeWhile plain_char inp = [] then None else Some (takeWhile plain_char inp))"
  unfolding match_run_def plain_char_def [abs_def] Let_def by simp

lemma match_run_symbol:
  "match_run [CHR '':'', CHR ''}''] inp =
     (if takeWhile symbol_char inp = [] then None else Some (takeWhile symbol_char inp))"
  unfolding match_run_def symbol_char_def [abs_def] Let_def by simp

lemma normal_run:
  assumes "plain_char c"
  shows "toks_of NORMAL (c # r) =
     \<lparr>tok_type = STRING, tok_text = takeWhile plain_char (c # r)\<rparr>
       # toks_of NORMAL (dropWhile plain_char (c # r))"
proof -
  from assms have "c \<noteq> CHR ''$''" "c \<noteq> backslash" by (auto simp: plain_char_def)
  with assms have "first_match (LexerStateRules NORMAL) (c # r) =
      Some (NormalParseRules ! 2, takeWhile plain_char (c # r))"
    by (simp add: NormalParseRules_def match_literal_def match_run_plain)
  from toks_of_step [OF this] show ?thesis
    by (simp add: NormalParseRules_def dropWhile_eq_drop_takeWhile [symmetric] assms)
qed

lemma normal_dollar:
  "r = [] \<or> hd r \<noteq> CHR ''{'' \<Longrightarrow>
   toks_of NORMAL (CHR ''$'' # r) = \<lparr>tok_type = STRING, tok_text = ''$''\<rparr> # toks_of NORMAL r"
  by (subst toks_of_step [where rule = "NormalParseRules ! 3" and m = "''$''"]; cases r)
     (auto simp: NormalParseRules_def match_literal_def match_run_def)

lemma normal_backslash:
  "r = [] \<or> hd r \<noteq> CHR ''$'' \<Longrightarrow>
   toks_of NORMAL (backslash # r) = \<lparr>tok_type = STRING, tok_text = [backslash]\<rparr> # toks_of NORMAL r"
  by (subst toks_of_step [where rule = "NormalParseRules ! 4" and m = "[backslash]"]; cases r)
     (auto simp: NormalParseRules_def match_literal_def match_run_def)

lemma field_run:
  assumes "symbol_char c"
  shows "toks_of FIELD (c # r) =
     \<lparr>tok_type = SYMBOL, tok_text = takeWhile symbol_char (c # r)\<rparr>
       # toks_of FIELD (dropWhile symbol_char (c # r))"
proof -
  from assms have "first_match (LexerStateRules FIELD) (c # r) =
      Some (FieldParseRules ! 0, takeWhile symbol_char (c # r))"
    by (simp add: FieldParseRules_def match_run_symbol)
  from toks_of_step [OF this] show ?thesis
    by (simp add: FieldParseRules_def dropWhile_eq_drop_takeWhile [symmetric] assms)
qed

lemma field_colon:
  "toks_of FIELD (CHR '':'' # r) = \<lparr>tok_type = COLON, tok_text = '':''\<rparr> # toks_of FIELD r"
  by (subst toks_of_step [where rule = "FieldParseRules ! 1" and m = "'':''"])
     (auto simp: FieldParseRules_def match_literal_def match_run_def)

lemma field_close:
  "toks_of FIELD (CHR ''}'' # r) = \<lparr>tok_type = CLOSE_BRACKET, tok_text = ''}''\<rparr> # toks_of NORMAL r"
  by (subst toks_of_step [where rule = "FieldParseRules ! 2" and m = "''}''"])
     (auto simp: FieldParseRules_def match_literal_def match_run_def)

text \<open>The case distinction that the rules of a state make on the input.\<close>

lemma normal_cases:
  obtains (empty) "inp = []"
  | (openb) r where "inp = CHR ''$'' # CHR ''{'' # r"
  | (escape) r where "inp = backslash # CHR ''$'' # r"
  | (run) c r where "inp = c # r" "plain_char c"
  | (dollar) r where "inp = CHR ''$'' # r" "r = [] \<or> hd r \<noteq> CHR ''{''"
  | (bslash) r where "inp = backslash # r" "r = [] \<or> hd r \<noteq> CHR ''$''"
proof (cases inp)
  case Nil
  then show ?thesis by (rule empty)
next
  case (Cons c r)
  show ?thesis
  proof (cases "plain_char c")
    case True
    with Cons show ?thesis by (rule run)
  next
    case False
    then consider "c = CHR ''$''" | "c = backslash" by (auto simp: plain_char_def)
    then show ?thesis
    proof cases
      case 1
      show ?thesis
      proof (cases "r = [] \<or> hd r \<noteq> CHR ''{''")
        case True
        with Cons 1 show ?thesis by (intro dollar) auto
      next
        case False
        then obtain r' where "r = CHR ''{'' # r'" by (cases r) auto
        with Cons 1 show ?thesis by (intro openb) auto
      qed
    next
      case 2
      show ?thesis
      proof (cases "r = [] \<or> hd r \<noteq> CHR ''$''")
        case True
        with Cons 2 show ?thesis by (intro bslash) auto
      next
        case False
        then obtain r' where "r = CHR ''$'' # r'" by (cases r) auto
        with Cons 2 show ?thesis by (intro escape) auto
      qed
    qed
  qed
qed

lemma field_cases:
  obtains (empty) "inp = []"
  | (run) c r where "inp = c # r" "symbol_char c"
  | (colon) r where "inp = CHR '':'' # r"
  | (close) r where "inp = CHR ''}'' # r"
  by (cases inp) (auto simp: symbol_char_def)

lemma match_literal_prefix: "match_literal lit inp = Some m \<Longrightarrow> take (length m) inp = m"
  by (auto simp: match_literal_def split: if_splits)

lemma match_run_prefix: "match_run ex inp = Some m \<Longrightarrow> take (length m) inp = m"
  by (auto simp: match_run_def Let_def takeWhile_eq_take [symmetric] split: if_splits)

lemma first_match_prefix:
  "first_match (LexerStateRules state) inp = Some (rule, m) \<Longrightarrow> take (length m) inp = m"
  by (cases state)
     (auto simp: NormalParseRules_def FieldParseRules_def
           split: option.splits dest: match_literal_prefix match_run_prefix)

lemma toks_concat: "concat (map tok_text (toks_of state inp)) = inp"
proof (induction state inp rule: toks_of.induct)
  case (1 state inp)
  show ?case
  proof (cases inp)
    case Nil
    then show ?thesis by simp
  next
    case (Cons c cs)
    then obtain rule m where fm: "first_match (LexerStateRules state) inp = Some (rule, m)"
      using first_match_exhaustive [of state c cs]
      by (cases "first_match (LexerStateRules state) inp") auto
    from Cons have ne: "inp \<noteq> []" by simp
    have "m @ drop (length m) inp = inp"
      using first_match_prefix [OF fm] by (metis append_take_drop_id)
    with "1.IH" [OF ne fm refl] fm ne show ?thesis
      by (subst toks_of.simps) simp
  qed
qed

lemma segs_of_Nil [simp]: "segs_of [] = []"
  by (simp add: segs_of.simps)

lemma segs_of_Cons:
  "tok_type tk \<noteq> EOF \<Longrightarrow>
   segs_of (tk # r) =
     fst (text_phase (tk # r)) @ fst (field_phase (drop (snd (text_phase (tk # r))) (tk # r)))
       @ segs_of (drop (snd (text_phase (tk # r))
                        + snd (field_phase (drop (snd (text_phase (tk # r))) (tk # r)))) (tk # r))"
  by (subst segs_of.simps) simp

lemma field_phase_Nil [simp]: "field_phase [] = ([], 0)"
  by (simp add: field_phase_def)

lemma text_phase_not_text:
  "r = [] \<or> \<not> is_text (hd r) \<Longrightarrow> text_phase r = ([], 0)"
  by (cases r) (auto simp: text_phase_def)

lemma plain_template_tokens:
  assumes "t \<noteq> []" and "\<forall>c\<in>set t. plain_char c"
  shows "toks_of NORMAL t = [\<lparr>tok_type = STRING, tok_text = t\<rparr>]"
proof -
  from assms obtain c r where t: "t = c # r" and c: "plain_char c" by (cases t) auto
  have "takeWhile plain_char t = t" "dropWhile plain_char t = []"
    using assms(2) by simp_all
  with normal_run [OF c, of r] t show ?thesis by simp
qed

lemma segs_of_single_string:
  assumes "t \<noteq> []"
  shows "segs_of [\<lparr>tok_type = STRING, tok_text = t\<rparr>] = [TextSegment t 0 (length t)]"
proof -
  have "text_phase [\<lparr>tok_type = STRING, tok_text = t\<rparr>] = ([TextSegment t 0 (length t)], 1)"
    using assms by (simp add: text_phase_def is_text_def textTokens_def)
  then show ?thesis by (simp add: segs_of_Cons)
qed

lemma takeWhile_stop:
  "\<forall>c\<in>set xs. P c \<Longrightarrow> \<not> P y \<Longrightarrow> takeWhile P (xs @ y # ys) = xs"
  by (induction xs) auto

lemma dropWhile_stop:
  "\<forall>c\<in>set xs. P c \<Longrightarrow> \<not> P y \<Longrightarrow> dropWhile P (xs @ y # ys) = y # ys"
  by (induction xs) auto

lemma field_symbol_then:
  assumes "s \<noteq> []" and "\<forall>c\<in>set s. symbol_char c" and "\<not> symbol_char y"
  shows "toks_of FIELD (s @ y # r) = \<lparr>tok_type = SYMBOL, tok_text = s\<rparr> # toks_of FIELD (y # r)"
proof -
  from assms obtain c s' where s: "s = c # s'" and c: "symbol_char c" by (cases s) auto
  from field_run [OF c, of "s' @ y # r"] s
  show ?thesis
    using takeWhile_stop [OF assms(2,3), of r] dropWhile_stop [OF assms(2,3), of r] by simp
qed

lemma complete_field_tokens:
  assumes "ns \<noteq> []" "k \<noteq> []" "\<forall>c\<in>set ns. symbol_char c" "\<forall>c\<in>set k. symbol_char c"
  shows "toks_of NORMAL (''${'' @ ns @ '':'' @ k @ ''}'') =
     [\<lparr>tok_type = OPEN_BRACKET, tok_text = ''${''\<rparr>,
      \<lparr>tok_type = SYMBOL, tok_text = ns\<rparr>,
      \<lparr>tok_type = COLON, tok_text = '':''\<rparr>,
      \<lparr>tok_type = SYMBOL, tok_text = k\<rparr>,
      \<lparr>tok_type = CLOSE_BRACKET, tok_text = ''}''\<rparr>]"
proof -
  have c1: "\<not> symbol_char (CHR '':'')" and c2: "\<not> symbol_char (CHR ''}'')"
    by (simp_all add: symbol_char_def)
  have "toks_of NORMAL (''${'' @ ns @ '':'' @ k @ ''}'') = 
        \<lparr>tok_type = OPEN_BRACKET, tok_text = ''${''\<rparr> # toks_of FIELD (ns @ CHR '':'' # k @ ''}'')"
    using normal_open [of "ns @ CHR '':'' # k @ ''}''"] by simp
  also have "toks_of FIELD (ns @ CHR '':'' # k @ ''}'') =
        \<lparr>tok_type = SYMBOL, tok_text = ns\<rparr> # toks_of FIELD (CHR '':'' # k @ ''}'')"
    using assms c1 by (simp add: field_symbol_then)
  also have "toks_of FIELD (CHR '':'' # k @ ''}'') =
        \<lparr>tok_type = COLON, tok_text = '':''\<rparr> # toks_of FIELD (k @ CHR ''}'' # [])"
    by (simp add: field_colon)
  also have "toks_of FIELD (k @ CHR ''}'' # []) =
        \<lparr>tok_type = SYMBOL, tok_text = k\<rparr> # toks_of FIELD (CHR ''}'' # [])"
    using assms c2 by (simp add: field_symbol_then)
  also have "toks_of FIELD (CHR ''}'' # []) = [\<lparr>tok_type = CLOSE_BRACKET, tok_text = ''}''\<rparr>]"
    by (simp add: field_close)
  finally show ?thesis .
qed

lemma segs_of_complete_field:
  "segs_of [\<lparr>tok_type = OPEN_BRACKET, tok_text = a\<rparr>,
      \<lparr>tok_type = SYMBOL, tok_text = ns\<rparr>,
      \<lparr>tok_type = COLON, tok_text = b\<rparr>,
      \<lparr>tok_type = SYMBOL, tok_text = k\<rparr>,
      \<lparr>tok_type = CLOSE_BRACKET, tok_text = c\<rparr>] =
   [FieldSegment ns k 0 (2 + length ns + 1 + length k + 1)]"
  by (simp add: segs_of_Cons text_phase_not_text is_text_def textTokens_def
                field_phase_def field_ahead_def fieldTokenTypeList_def)

lemma field_no_close_types:
  "CHR ''}'' \<notin> set inp \<Longrightarrow>
   \<forall>t\<in>set (toks_of FIELD inp). tok_type t = SYMBOL \<or> tok_type t = COLON"
proof (induction "length inp" arbitrary: inp rule: less_induct)
  case less
  show ?case
  proof (cases inp rule: field_cases)
    case empty
    then show ?thesis by simp
  next
    case (run c r)
    have "length (dropWhile symbol_char (c # r)) < length inp"
      using run by (simp add: length_dropWhile_le le_imp_less_Suc)
    moreover have "CHR ''}'' \<notin> set (dropWhile symbol_char (c # r))"
      using less.prems run by (metis set_dropWhileD)
    ultimately have "\<forall>t\<in>set (toks_of FIELD (dropWhile symbol_char (c # r))).
        tok_type t = SYMBOL \<or> tok_type t = COLON"
      by (rule less.hyps)
    with run show ?thesis by (simp add: field_run del: dropWhile.simps)
  next
    case (colon r)
    with less.prems have "\<forall>t\<in>set (toks_of FIELD r). tok_type t = SYMBOL \<or> tok_type t = COLON"
      by (intro less.hyps) auto
    with colon show ?thesis by (simp add: field_colon)
  next
    case (close r)
    with less.prems show ?thesis by simp
  qed
qed

lemma field_ahead_close: "field_ahead r \<Longrightarrow> \<exists>t\<in>set r. tok_type t = CLOSE_BRACKET"
proof -
  assume fa: "field_ahead r"
  then obtain t1 t2 t3 t4 t5 r' where r: "r = t1 # t2 # t3 # t4 # t5 # r'"
    using field_ahead_length by blast
  with fa have "tok_type t5 = CLOSE_BRACKET"
    by (simp add: field_ahead_def fieldTokenTypeList_def)
  with r show ?thesis by auto
qed

lemma segs_of_bad_run:
  assumes "r \<noteq> []" and "\<forall>t\<in>set r. is_bad t" and "\<forall>t\<in>set r. tok_type t \<noteq> CLOSE_BRACKET"
  shows "segs_of r = [ErrorSegment (concat (map tok_text r)) [] 0 (length (concat (map tok_text r)))]"
proof -
  from assms obtain tk r' where r: "r = tk # r'" by (cases r) auto
  from assms(2) r have bad: "is_bad tk" by simp
  then have nt: "\<not> is_text tk" and ne: "tok_type tk \<noteq> EOF"
    by (auto simp: is_bad_def is_text_def nonFieldTypes_def textTokens_def)
  have tp: "text_phase r = ([], 0)"
    using nt r by (simp add: text_phase_not_text)
  have nfa: "\<not> field_ahead r"
    using assms(3) field_ahead_close by blast
  have tw: "takeWhile is_bad r = r"
    using assms(2) by simp
  have fp: "field_phase r =
      ([ErrorSegment (concat (map tok_text r)) [] 0 (length (concat (map tok_text r)))], length r)"
    using ne by (simp add: field_phase_def Let_def r tw [unfolded r] nfa [unfolded r]
                     del: takeWhile.simps)
  show ?thesis
    using ne tp fp by (simp add: r [symmetric] segs_of_Cons [of tk r', folded r])
qed

lemma cursor_ok_peek: "cursor_ok ts \<Longrightarrow> \<exists>t. peekTokenType ts = Inr t"
  by (cases "length (tokens ts) = tokenIndex ts") (auto simp: peekTokenType_def cursor_ok_def)

lemma parse_loop_ends:
  "cursor_ok ts \<Longrightarrow>
   \<exists>result' ts'. parse_loop result ts = Inr (result', ts') \<and> peekTokenType ts' = Inr EOF"
proof (induction result ts rule: parse_loop.induct)
  case (1 result ts)
  from cursor_ok_peek [OF "1.prems"] obtain t where peek: "peekTokenType ts = Inr t" ..
  show ?case
  proof (cases "t = EOF")
    case True
    with peek show ?thesis by (subst parse_loop.simps) simp
  next
    case False
    from iteration_spec [OF "1.prems"] obtain n1 n2 where
      p1: "processTextStateTokens ts = Inr (fst (text_phase (remaining ts)), advance n1 ts)" and
      p2: "processFieldStateTokens (advance n1 ts) =
           Inr (fst (field_phase (drop n1 (remaining ts))), advance (n1 + n2) ts)" and
      le: "n1 + n2 \<le> length (remaining ts)"
      by blast
    have ok2: "cursor_ok (advance (n1 + n2) ts)"
      using "1.prems" le by (rule cursor_ok_advance)
    from "1.IH" [OF peek False p1 refl p2 refl ok2] peek False p1 p2 show ?thesis
      by (subst parse_loop.simps) simp
  qed
qed

lemma field_phase_progress:
  assumes "r = tk # r'" and "\<not> is_text tk" and "tok_type tk \<noteq> EOF"
  shows "0 < snd (field_phase r)"
proof (cases "field_ahead r")
  case True
  with assms show ?thesis by (simp add: field_phase_def)
next
  case False
  from assms have "is_bad tk"
    by (simp add: is_bad_def is_text_def nonFieldTypes_def textTokens_def)
  with False assms show ?thesis by (simp add: field_phase_def Let_def)
qed

lemma after_text_phase:
  "drop (snd (text_phase r)) r = dropWhile is_text r"
  by (simp add: text_phase_def Let_def dropWhile_eq_drop_takeWhile)

lemma dropWhile_head: "dropWhile P xs = y # ys \<Longrightarrow> \<not> P y"
  by (metis dropWhile_eq_Cons_conv)

subsection \<open>What the lexer guarantees about its tokens\<close>

text \<open>The text of a token of each type, as the rules produce it.\<close>

definition tok_ok :: "Token \<Rightarrow> bool" where
  "tok_ok t =
     (case tok_type t of
        STRING \<Rightarrow> tok_text t \<noteq> [] \<and> (tok_text t = [backslash] \<or> backslash \<notin> set (tok_text t))
      | ESCAPE_DOLLAR \<Rightarrow> tok_text t = [backslash, CHR ''$'']
      | OPEN_BRACKET \<Rightarrow> tok_text t = ''${''
      | SYMBOL \<Rightarrow> tok_text t \<noteq> []
      | COLON \<Rightarrow> tok_text t = '':''
      | CLOSE_BRACKET \<Rightarrow> tok_text t = ''}''
      | EOF \<Rightarrow> False)"

text \<open>Every token is as the rules produce it, and a single backslash is never followed by a
  token that starts with \<open>$\<close>: the escape rule comes first.\<close>

fun lexed :: "Token list \<Rightarrow> bool" where
  "lexed [] = True"
| "lexed (t # r) =
     (tok_ok t
      \<and> (tok_type t = STRING \<and> tok_text t = [backslash] \<longrightarrow>
           (case r of [] \<Rightarrow> True | u # _ \<Rightarrow> hd (tok_text u) \<noteq> CHR ''$''))
      \<and> lexed r)"

lemma tok_ok_nonempty: "tok_ok t \<Longrightarrow> tok_text t \<noteq> []"
  by (cases "tok_type t") (auto simp: tok_ok_def)

lemma tok_ok_not_EOF: "tok_ok t \<Longrightarrow> tok_type t \<noteq> EOF"
  by (auto simp: tok_ok_def)

lemma toks_of_head:
  assumes "toks_of state inp = u # us"
  shows "tok_text u \<noteq> [] \<and> hd (tok_text u) = hd inp"
proof -
  from assms have ne: "inp \<noteq> []" by (cases inp) auto
  then obtain c cs where inp: "inp = c # cs" by (cases inp) auto
  obtain rule m where fm: "first_match (LexerStateRules state) inp = Some (rule, m)"
    using first_match_exhaustive [of state c cs] inp
    by (cases "first_match (LexerStateRules state) inp") auto
  from toks_of_step [OF fm [unfolded inp]] assms inp have u: "tok_text u = m" by auto
  from first_match_nonempty [OF fm] have m: "m \<noteq> []" .
  from first_match_prefix [OF fm] have "take (length m) inp = m" .
  with m ne have "hd m = hd inp"
    by (metis hd_take length_greater_0_conv)
  with u m show ?thesis by simp
qed

lemma lexed_toks_of: "lexed (toks_of state inp)"
proof (induction "length inp" arbitrary: state inp rule: less_induct)
  case less
  show ?case
  proof (cases state)
    case NORMAL
    show ?thesis
    proof (cases inp rule: normal_cases)
      case empty
      then show ?thesis by simp
    next
      case (openb r)
      with less.hyps [of r FIELD] NORMAL show ?thesis
        by (simp add: normal_open tok_ok_def)
    next
      case (escape r)
      with less.hyps [of r NORMAL] NORMAL show ?thesis
        by (simp add: normal_escape tok_ok_def)
    next
      case (run c r)
      have len: "length (dropWhile plain_char (c # r)) < length inp"
        using run by (simp add: length_dropWhile_le le_imp_less_Suc)
      have "backslash \<notin> set (takeWhile plain_char (c # r))"
        by (metis (mono_tags, lifting) plain_char_def set_takeWhileD list.set_intros(1,2))
      moreover have "takeWhile plain_char (c # r) \<noteq> []" using run by simp
      moreover have "takeWhile plain_char (c # r) \<noteq> [backslash]"
        using calculation(1) by auto
      ultimately show ?thesis
        using less.hyps [OF len, of NORMAL] NORMAL run
        by (simp add: normal_run tok_ok_def del: takeWhile.simps dropWhile.simps)
    next
      case (dollar r)
      with less.hyps [of r NORMAL] NORMAL show ?thesis
        by (simp add: normal_dollar tok_ok_def)
    next
      case (bslash r)
      have adj: "case toks_of NORMAL r of [] \<Rightarrow> True | u # _ \<Rightarrow> hd (tok_text u) \<noteq> CHR ''$''"
      proof (cases "toks_of NORMAL r")
        case Nil
        then show ?thesis by simp
      next
        case (Cons u us)
        from toks_of_head [OF this] have "hd (tok_text u) = hd r" by simp
        moreover from Cons have "r \<noteq> []" by (cases r) auto
        ultimately show ?thesis using bslash Cons by simp
      qed
      with bslash less.hyps [of r NORMAL] NORMAL show ?thesis
        by (simp add: normal_backslash tok_ok_def)
    qed
  next
    case FIELD
    show ?thesis
    proof (cases inp rule: field_cases)
      case empty
      then show ?thesis by simp
    next
      case (run c r)
      have len: "length (dropWhile symbol_char (c # r)) < length inp"
        using run by (simp add: length_dropWhile_le le_imp_less_Suc)
      have "takeWhile symbol_char (c # r) \<noteq> []" using run by simp
      then show ?thesis
        using less.hyps [OF len, of FIELD] FIELD run
        by (simp add: field_run tok_ok_def del: takeWhile.simps dropWhile.simps)
    next
      case (colon r)
      with less.hyps [of r FIELD] FIELD show ?thesis
        by (simp add: field_colon tok_ok_def)
    next
      case (close r)
      with less.hyps [of r NORMAL] FIELD show ?thesis
        by (simp add: field_close tok_ok_def)
    qed
  qed
qed

lemma lexed_tl: "lexed (t # r) \<Longrightarrow> lexed r"
  by simp

lemma lexed_drop: "lexed r \<Longrightarrow> lexed (drop n r)"
proof (induction n arbitrary: r)
  case 0
  then show ?case by simp
next
  case (Suc n)
  then show ?case by (cases r) simp_all
qed

lemma lexed_append_left: "lexed (xs @ ys) \<Longrightarrow> lexed xs"
proof (induction xs)
  case Nil
  then show ?case by simp
next
  case (Cons x xs)
  then show ?case by (cases xs) (auto split: list.splits)
qed

lemma lexed_all_ok: "lexed r \<Longrightarrow> \<forall>t\<in>set r. tok_ok t"
  by (induction r) auto

subsection \<open>Segments and the text they were parsed from\<close>

text \<open>What the template syntax says about a text region: a backslash followed by \<open>$\<close>
  stands for a literal dollar sign, every other character for itself. \<open>unescape\<close> decodes a text that way, from left to
  right, and \<open>escapes\<close> counts the escape sequences it meets.\<close>

fun unescape :: "string \<Rightarrow> string" where
  "unescape (c # d # r) =
     (if c = backslash \<and> d = CHR ''$'' then CHR ''$'' # unescape r else c # unescape (d # r))"
| "unescape r = r"

fun escapes :: "string \<Rightarrow> nat" where
  "escapes (c # d # r) =
     (if c = backslash \<and> d = CHR ''$'' then Suc (escapes r) else escapes (d # r))"
| "escapes r = 0"

lemma length_unescape: "length (unescape s) + escapes s = length s"
  by (induction s rule: unescape.induct) auto

lemma unescape_plain_prefix:
  "backslash \<notin> set p \<Longrightarrow> unescape (p @ rest) = p @ unescape rest"
proof (induction p)
  case Nil
  then show ?case by simp
next
  case (Cons c p)
  then show ?case by (cases "p @ rest") auto
qed

text \<open>The text and the width that a text token adds to its segment.\<close>

definition dec :: "Token \<Rightarrow> string" where
  "dec t = (if tok_type t = STRING then tok_text t else ''$'')"

definition wid :: "Token \<Rightarrow> nat" where
  "wid t = (if tok_type t = STRING then length (tok_text t) else 2)"

lemma foldl_text_add:
  "\<forall>t\<in>set xs. is_text t \<Longrightarrow>
   foldl text_add (TextSegment a s w) xs =
     TextSegment (a @ concat (map dec xs)) s (w + sum_list (map wid xs))"
proof (induction xs arbitrary: a w)
  case Nil
  then show ?case by simp
next
  case (Cons x xs)
  then show ?case
    by (auto simp: is_text_def textTokens_def dec_def wid_def)
qed

lemma unescape_text_tokens:
  "lexed xs \<Longrightarrow> \<forall>t\<in>set xs. is_text t \<Longrightarrow>
   unescape (concat (map tok_text xs)) = concat (map dec xs)"
proof (induction xs)
  case Nil
  then show ?case by simp
next
  case (Cons t xs)
  from Cons.prems have ok: "tok_ok t" and lx: "lexed xs" and tx: "\<forall>t\<in>set xs. is_text t"
    by simp_all
  note IH = Cons.IH [OF lx tx]
  from Cons.prems(2) consider (str) "tok_type t = STRING" | (esc) "tok_type t = ESCAPE_DOLLAR"
    by (auto simp: is_text_def textTokens_def)
  then show ?case
  proof cases
    case esc
    with ok have "tok_text t = [backslash, CHR ''$'']" by (simp add: tok_ok_def)
    with esc IH show ?thesis by (simp add: dec_def)
  next
    case str
    show ?thesis
    proof (cases "tok_text t = [backslash]")
      case False
      with ok str have "backslash \<notin> set (tok_text t)" by (simp add: tok_ok_def)
      with IH str show ?thesis by (simp add: unescape_plain_prefix dec_def)
    next
      case True
      show ?thesis
      proof (cases xs)
        case Nil
        with True str show ?thesis by (simp add: dec_def)
      next
        case (Cons u us)
        from Cons.prems(1) True str Cons have adj: "hd (tok_text u) \<noteq> CHR ''$''" by simp
        from lx Cons have "tok_ok u" by simp
        then have "tok_text u \<noteq> []" by (rule tok_ok_nonempty)
        then obtain d r where u: "tok_text u = d # r" by (cases "tok_text u") auto
        with adj have d: "d \<noteq> CHR ''$''" by simp
        have "unescape (concat (map tok_text (t # xs))) =
              backslash # unescape (concat (map tok_text xs))"
          using True Cons u d by simp
        with IH True str show ?thesis by (simp add: dec_def)
      qed
    qed
  qed
qed

lemma width_text_tokens:
  "\<forall>t\<in>set xs. tok_ok t \<Longrightarrow> \<forall>t\<in>set xs. is_text t \<Longrightarrow>
   sum_list (map wid xs) = length (concat (map tok_text xs))"
proof (induction xs)
  case Nil
  then show ?case by simp
next
  case (Cons t xs)
  from Cons.prems have "wid t = length (tok_text t)"
    by (auto simp: wid_def tok_ok_def is_text_def textTokens_def)
  with Cons show ?case by simp
qed

text \<open>A segment and the part of the template it was parsed from.\<close>

definition seg_src :: "Segment \<Rightarrow> string \<Rightarrow> bool" where
  "seg_src seg src =
     (src \<noteq> [] \<and>
      (case seg of
         TextSegment t _ _ \<Rightarrow> t = unescape src
       | FieldSegment n k _ _ \<Rightarrow> src = ''${'' @ n @ '':'' @ k @ ''}''
       | ErrorSegment t m _ _ \<Rightarrow> t = src \<and> m = []))"

definition parsed_from :: "Segment \<Rightarrow> string \<Rightarrow> bool" where
  "parsed_from seg src = (seg_src seg src \<and> endColumn seg = length src)"

lemma text_phase_sources:
  assumes "lexed r"
  shows "\<exists>srcs. concat srcs = concat (map tok_text (take (snd (text_phase r)) r))
            \<and> list_all2 parsed_from (fst (text_phase r)) srcs"
proof -
  let ?xs = "takeWhile is_text r"
  have n: "snd (text_phase r) = length ?xs" by (simp add: text_phase_def Let_def)
  have tk: "take (length ?xs) r = ?xs" by (simp add: takeWhile_eq_take [symmetric])
  have all: "\<forall>t\<in>set ?xs. is_text t" by (auto dest: set_takeWhileD)
  have "lexed (?xs @ dropWhile is_text r)" using assms by simp
  then have lx: "lexed ?xs" by (rule lexed_append_left)
  then have oks: "\<forall>t\<in>set ?xs. tok_ok t" by (rule lexed_all_ok)
  have seg: "foldl text_add (TextSegment [] 0 0) ?xs =
      TextSegment (unescape (concat (map tok_text ?xs))) 0 (length (concat (map tok_text ?xs)))"
    using foldl_text_add [OF all, of "[]" 0 0] unescape_text_tokens [OF lx all]
          width_text_tokens [OF oks all]
    by simp
  show ?thesis
  proof (cases "?xs = []")
    case True
    then have "fst (text_phase r) = []" by (simp add: text_phase_def Let_def)
    with True n show ?thesis by simp
  next
    case False
    then obtain x xs' where xs: "?xs = x # xs'" by (cases ?xs) auto
    with oks have "tok_text x \<noteq> []" by (simp add: tok_ok_nonempty)
    with xs have ne: "concat (map tok_text ?xs) \<noteq> []" by simp
    have "length (unescape (concat (map tok_text ?xs))) \<noteq> 0"
    proof
      assume "length (unescape (concat (map tok_text ?xs))) = 0"
      then have "unescape (concat (map tok_text ?xs)) = []" by simp
      with ne show False by (cases "concat (map tok_text ?xs)" rule: unescape.cases) (auto split: if_splits)
    qed
    then have ne': "unescape (concat (map tok_text ?xs)) \<noteq> []" by simp
    have "fst (text_phase r) =
        [TextSegment (unescape (concat (map tok_text ?xs))) 0 (length (concat (map tok_text ?xs)))]"
      using seg ne' by (simp add: text_phase_def Let_def)
    moreover have "parsed_from
        (TextSegment (unescape (concat (map tok_text ?xs))) 0 (length (concat (map tok_text ?xs))))
        (concat (map tok_text ?xs))"
      using ne by (simp add: parsed_from_def seg_src_def)
    ultimately have "list_all2 parsed_from (fst (text_phase r)) [concat (map tok_text ?xs)]"
      by simp
    moreover have "concat [concat (map tok_text ?xs)] =
        concat (map tok_text (take (snd (text_phase r)) r))"
      using n tk by simp
    ultimately show ?thesis by blast
  qed
qed

lemma field_phase_sources:
  assumes lx: "lexed r" and nt: "r = [] \<or> \<not> is_text (hd r)"
  shows "\<exists>srcs. concat srcs = concat (map tok_text (take (snd (field_phase r)) r))
            \<and> list_all2 parsed_from (fst (field_phase r)) srcs"
proof (cases r)
  case Nil
  then show ?thesis by simp
next
  case (Cons u us)
  from lx have oks: "\<forall>t\<in>set r. tok_ok t" by (rule lexed_all_ok)
  with Cons have ne: "tok_type u \<noteq> EOF" by (simp add: tok_ok_not_EOF)
  show ?thesis
  proof (cases "field_ahead r")
    case True
    then obtain t1 t2 t3 t4 t5 r' where r: "r = t1 # t2 # t3 # t4 # t5 # r'"
      using field_ahead_length by blast
    from True r have ty: "tok_type t1 = OPEN_BRACKET" "tok_type t3 = COLON"
        "tok_type t5 = CLOSE_BRACKET"
      by (simp_all add: field_ahead_def fieldTokenTypeList_def)
    from oks r ty have tx: "tok_text t1 = ''${''" "tok_text t3 = '':''" "tok_text t5 = ''}''"
      by (simp_all add: tok_ok_def)
    let ?seg = "FieldSegment (tok_text t2) (tok_text t4) 0
                  (2 + length (tok_text t2) + 1 + length (tok_text t4) + 1)"
    let ?src = "''${'' @ tok_text t2 @ '':'' @ tok_text t4 @ ''}''"
    have fp: "field_phase r = ([?seg], 5)"
      using True r ne Cons by (simp add: field_phase_def)
    have "parsed_from ?seg ?src" by (simp add: parsed_from_def seg_src_def)
    then have "list_all2 parsed_from (fst (field_phase r)) [?src]" by (simp add: fp)
    moreover have "take (snd (field_phase r)) r = [t1, t2, t3, t4, t5]"
      by (simp add: fp) (simp add: r)
    then have "concat [?src] = concat (map tok_text (take (snd (field_phase r)) r))"
      using tx by simp
    ultimately show ?thesis by blast
  next
    case False
    let ?xs = "takeWhile is_bad r"
    let ?b = "concat (map tok_text ?xs)"
    have fp: "field_phase r = ([ErrorSegment ?b [] 0 (length ?b)], length ?xs)"
      using False ne Cons by (simp add: field_phase_def Let_def del: takeWhile.simps)
    have tk: "take (length ?xs) r = ?xs" by (simp add: takeWhile_eq_take [symmetric])
    from nt Cons ne have "is_bad u"
      by (simp add: is_bad_def is_text_def nonFieldTypes_def textTokens_def)
    with Cons have xs: "?xs = u # takeWhile is_bad us" by simp
    show ?thesis
    proof -
      from oks Cons have "tok_text u \<noteq> []" by (simp add: tok_ok_nonempty)
      with xs have "?b \<noteq> []" by simp
      then have "parsed_from (ErrorSegment ?b [] 0 (length ?b)) ?b"
        by (simp add: parsed_from_def seg_src_def)
      then have "list_all2 parsed_from (fst (field_phase r)) [?b]" by (simp add: fp)
      moreover have "concat [?b] = concat (map tok_text (take (snd (field_phase r)) r))"
        using tk by (simp add: fp)
      ultimately show ?thesis by blast
    qed
  qed
qed


lemma segs_of_sources:
  "lexed r \<Longrightarrow>
   \<exists>srcs. concat srcs = concat (map tok_text r) \<and> list_all2 parsed_from (segs_of r) srcs"
proof (induction r rule: segs_of.induct)
  case (1 r)
  show ?case
  proof (cases r)
    case Nil
    then show ?thesis by simp
  next
    case (Cons tk r')
    from "1.prems" Cons have ne: "tok_type tk \<noteq> EOF" by (simp add: tok_ok_not_EOF)
    let ?n1 = "snd (text_phase r)"
    let ?ys = "drop ?n1 r"
    let ?n2 = "snd (field_phase ?ys)"
    have ys: "?ys = dropWhile is_text r" by (rule after_text_phase)
    have nt: "?ys = [] \<or> \<not> is_text (hd ?ys)"
      unfolding ys by (cases "dropWhile is_text r") (auto dest: dropWhile_head)
    have lys: "lexed ?ys" using "1.prems" by (rule lexed_drop)
    have lrest: "lexed (drop (?n1 + ?n2) r)" using "1.prems" by (rule lexed_drop)
    from text_phase_sources [OF "1.prems"] obtain s1 where
      s1: "concat s1 = concat (map tok_text (take ?n1 r))"
          "list_all2 parsed_from (fst (text_phase r)) s1" by blast
    from field_phase_sources [OF lys nt] obtain s2 where
      s2: "concat s2 = concat (map tok_text (take ?n2 ?ys))"
          "list_all2 parsed_from (fst (field_phase ?ys)) s2" by blast
    from "1.IH" [OF Cons ne lrest] obtain s3 where
      s3: "concat s3 = concat (map tok_text (drop (?n1 + ?n2) r))"
          "list_all2 parsed_from (segs_of (drop (?n1 + ?n2) r)) s3" by blast
    have split: "r = take ?n1 r @ take ?n2 ?ys @ drop (?n1 + ?n2) r"
      by (metis append_take_drop_id drop_drop add.commute)
    have "concat (s1 @ s2 @ s3) = concat (map tok_text r)"
    proof -
      have "concat (s1 @ s2 @ s3) =
          concat (map tok_text (take ?n1 r @ take ?n2 ?ys @ drop (?n1 + ?n2) r))"
        using s1(1) s2(1) s3(1) by simp
      with split show ?thesis by simp
    qed
    moreover have "segs_of r =
        fst (text_phase r) @ fst (field_phase ?ys) @ segs_of (drop (?n1 + ?n2) r)"
      using Cons ne by (simp add: segs_of_Cons)
    then have "list_all2 parsed_from (segs_of r) (s1 @ s2 @ s3)"
      using s1(2) s2(2) s3(2) by (simp add: list_all2_appendI)
    ultimately show ?thesis by blast
  qed
qed

text \<open>The segments tile the text \<open>s\<close> that starts at column \<open>i\<close>: each segment starts where the
  one before it ends, is not empty, and was parsed from the characters of its columns.\<close>

fun tiles :: "nat \<Rightarrow> string \<Rightarrow> Segment list \<Rightarrow> bool" where
  "tiles i s [] = (s = [])"
| "tiles i s (seg # segs) =
     (startColumn seg = i \<and> i < endColumn seg \<and> endColumn seg - i \<le> length s
      \<and> seg_src seg (take (endColumn seg - i) s)
      \<and> tiles (endColumn seg) (drop (endColumn seg - i) s) segs)"

lemma seg_src_set_columns [simp]: "seg_src (set_columns seg a b) src = seg_src seg src"
  by (cases seg) (simp_all add: seg_src_def)

lemma columns_set_columns [simp]:
  "startColumn (set_columns seg a b) = a" "endColumn (set_columns seg a b) = b"
  by (cases seg; simp)+

lemma tiles_correct_columns:
  "list_all2 parsed_from segs srcs \<Longrightarrow> tiles i (concat srcs) (correct_columns i segs)"
proof (induction segs srcs arbitrary: i rule: list_all2_induct)
  case Nil
  then show ?case by simp
next
  case (Cons seg segs src srcs)
  from Cons.hyps(1) have w: "endColumn seg = length src" and ss: "seg_src seg src"
    and ne: "src \<noteq> []"
    by (simp_all add: parsed_from_def seg_src_def)
  from Cons.IH [of "i + length src"] w ss ne show ?case by simp
qed

lemma tiles_setTemplateString:
  "\<exists>ts' segs. setTemplateString t ts = Inr ts' \<and> segments ts' = Some segs \<and> tiles 0 t segs"
proof -
  from segs_of_sources [OF lexed_toks_of, of NORMAL t] obtain srcs where
    "concat srcs = t" "list_all2 parsed_from (segs_of (toks_of NORMAL t)) srcs"
    by (auto simp: toks_concat)
  with tiles_correct_columns [of "segs_of (toks_of NORMAL t)" srcs 0]
  have "tiles 0 t (correct_columns 0 (segs_of (toks_of NORMAL t)))" by simp
  with setTemplateString_spec [of t ts] show ?thesis by auto
qed

text \<open>The statement of C1: the column ranges of the segments follow one another from
  column \<open>a\<close> to column \<open>b\<close>, none of them empty.\<close>

fun contiguous :: "nat \<Rightarrow> Segment list \<Rightarrow> nat \<Rightarrow> bool" where
  "contiguous a [] b = (a = b)"
| "contiguous a (seg # segs) b =
     (startColumn seg = a \<and> a < endColumn seg \<and> contiguous (endColumn seg) segs b)"

lemma tiles_contiguous:
  "tiles i s segs \<Longrightarrow>
   contiguous i segs (i + length s)
   \<and> sum_list (map (\<lambda>seg. endColumn seg - startColumn seg) segs) = length s"
proof (induction segs arbitrary: i s)
  case Nil
  then show ?case by simp
next
  case (Cons seg segs)
  from Cons.prems have a: "startColumn seg = i" "i < endColumn seg" "endColumn seg - i \<le> length s"
    and t: "tiles (endColumn seg) (drop (endColumn seg - i) s) segs"
    by simp_all
  from Cons.IH [OF t] a show ?case by (auto simp: add.commute)
qed

lemma tiles_text_segment:
  "tiles i s segs \<Longrightarrow> TextSegment decoded a b \<in> set segs \<Longrightarrow>
   i \<le> a \<and> a < b \<and> b \<le> i + length s \<and> decoded = unescape (take (b - a) (drop (a - i) s))"
proof (induction segs arbitrary: i s)
  case Nil
  then show ?case by simp
next
  case (Cons seg segs)
  from Cons.prems(1) have st: "startColumn seg = i" and lt: "i < endColumn seg"
    and le: "endColumn seg - i \<le> length s"
    and src: "seg_src seg (take (endColumn seg - i) s)"
    and t: "tiles (endColumn seg) (drop (endColumn seg - i) s) segs"
    by simp_all
  show ?case
  proof (cases "seg = TextSegment decoded a b")
    case True
    with st lt le src show ?thesis by (simp add: seg_src_def)
  next
    case False
    with Cons.prems(2) have "TextSegment decoded a b \<in> set segs" by simp
    from Cons.IH [OF t this] have
      1: "endColumn seg \<le> a" "a < b" "b \<le> endColumn seg + length (drop (endColumn seg - i) s)"
      and 2: "decoded = unescape (take (b - a) (drop (a - endColumn seg) (drop (endColumn seg - i) s)))"
      by simp_all
    have "a - endColumn seg + (endColumn seg - i) = a - i" using 1(1) lt by simp
    with 2 have "decoded = unescape (take (b - a) (drop (a - i) s))" by simp
    with 1 lt le show ?thesis by auto
  qed
qed

lemma escaped_example_segments:
  "correct_columns 0 (segs_of (toks_of NORMAL [CHR ''a'', backslash, CHR ''$'', CHR ''b'']))
     = [TextSegment ''a$b'' 0 4]"
proof -
  have pa: "plain_char (CHR ''a'')" and pb: "plain_char (CHR ''b'')"
    by (simp_all add: plain_char_def backslash_def)
  have "toks_of NORMAL [CHR ''a'', backslash, CHR ''$'', CHR ''b''] =
      [\<lparr>tok_type = STRING, tok_text = ''a''\<rparr>,
       \<lparr>tok_type = ESCAPE_DOLLAR, tok_text = [backslash, CHR ''$'']\<rparr>,
       \<lparr>tok_type = STRING, tok_text = ''b''\<rparr>]"
    using pa pb by (simp add: normal_run normal_escape plain_char_def)
  then show ?thesis
    by (simp add: segs_of_Cons text_phase_def is_text_def textTokens_def)
qed

lemma partition_example_segments:
  "correct_columns 0 (segs_of (toks_of NORMAL ''x${a:b}''))
     = [TextSegment ''x'' 0 1, FieldSegment ''a'' ''b'' 1 7]"
proof -
  have "toks_of NORMAL ''x${a:b}'' =
      [\<lparr>tok_type = STRING, tok_text = ''x''\<rparr>,
       \<lparr>tok_type = OPEN_BRACKET, tok_text = ''${''\<rparr>,
       \<lparr>tok_type = SYMBOL, tok_text = ''a''\<rparr>,
       \<lparr>tok_type = COLON, tok_text = '':''\<rparr>,
       \<lparr>tok_type = SYMBOL, tok_text = ''b''\<rparr>,
       \<lparr>tok_type = CLOSE_BRACKET, tok_text = ''}''\<rparr>]"
    by (simp add: normal_run normal_open field_run field_colon field_close
                  plain_char_def symbol_char_def backslash_def)
  then show ?thesis
    by (simp add: segs_of_Cons text_phase_def is_text_def textTokens_def field_phase_def
                  field_ahead_def fieldTokenTypeList_def)
qed

subsection \<open>The renders, segment by segment\<close>

lemma formatHtml_segments:
  "segments ts = Some segs \<Longrightarrow>
   formatHtml enc ts =
     Inr (concat (map (\<lambda>sg. fst (formatHtml_segment enc ts sg)) segs),
          concat (map (\<lambda>sg. snd (formatHtml_segment enc ts sg)) segs))"
  by (simp add: formatHtml_def Let_def comp_def)

lemma formatDiagnosticHtml_segments:
  "segments ts = Some segs \<Longrightarrow>
   formatDiagnosticHtml enc ts =
     Inr (concat (map (\<lambda>sg. fst (formatDiagnosticHtml_segment enc ts sg)) segs),
          concat (map (\<lambda>sg. snd (formatDiagnosticHtml_segment enc ts sg)) segs))"
  by (simp add: formatDiagnosticHtml_def Let_def comp_def)

lemma formatHtml_segment_segments [simp]:
  "formatHtml_segment enc (ts\<lparr>segments := x\<rparr>) = formatHtml_segment enc ts"
proof
  fix sg
  show "formatHtml_segment enc (ts\<lparr>segments := x\<rparr>) sg = formatHtml_segment enc ts sg"
    by (cases sg) (simp_all add: formatHtml_segment_def)
qed

lemma count_calls:
  "count_list (concat (map (\<lambda>sg. snd (formatHtml_segment enc ts sg)) segs)) c =
   length (filter (\<lambda>sg. c \<in> set (snd (formatHtml_segment enc ts sg))) segs)"
proof (induction segs)
  case Nil
  then show ?case by simp
next
  case (Cons sg segs)
  have "count_list (snd (formatHtml_segment enc ts sg)) c =
        (if c \<in> set (snd (formatHtml_segment enc ts sg)) then 1 else 0)"
    by (cases sg) (auto simp: formatHtml_segment_def split: option.splits)
  with Cons show ?case by simp
qed

text \<open>Two characters are the same letter when they are equal or one is the lower-case form of
  the other; two strings are equal up to letter case when they are so character by
  character. This is what case-insensitive matching of a namespace means; it is stated
  without \<open>toLowerCase\<close>.\<close>

definition same_letter :: "char \<Rightarrow> char \<Rightarrow> bool" where
  "same_letter c d =
     (c = d \<or> (is_upper c \<and> (of_char d :: nat) = of_char c + 32)
            \<or> (is_upper d \<and> (of_char c :: nat) = of_char d + 32))"

definition equal_ignoring_case :: "string \<Rightarrow> string \<Rightarrow> bool" where
  "equal_ignoring_case a b = list_all2 same_letter a b"

lemma of_char_lower_char:
  "(of_char (lower_char c) :: nat) = (if is_upper c then of_char c + 32 else of_char c)"
  by (auto simp: lower_char_def is_upper_def Let_def)

lemma lower_char_eq_iff:
  "(lower_char c = d) = ((if is_upper c then of_char c + 32 else of_char c :: nat) = of_char d)"
  using of_char_lower_char [of c] by (metis of_char_eq_iff)

lemma same_letter_iff: "same_letter c d = (lower_char c = lower_char d)"
proof -
  have "(lower_char c = lower_char d) = ((of_char (lower_char c) :: nat) = of_char (lower_char d))"
    by simp
  also have "\<dots> = same_letter c d"
    unfolding of_char_lower_char same_letter_def
    by (auto simp: is_upper_def Let_def dest: of_char_eqI)
  finally show ?thesis by simp
qed

lemma equal_ignoring_case_iff: "equal_ignoring_case a b = (toLowerCase a = toLowerCase b)"
proof -
  have "(toLowerCase a = toLowerCase b) = list_all2 (=) (map lower_char a) (map lower_char b)"
    by (simp add: toLowerCase_def list_all2_eq)
  also have "\<dots> = list_all2 (\<lambda>c d. lower_char c = lower_char d) a b"
    by (simp add: list_all2_map1 list_all2_map2)
  finally show ?thesis
    by (simp add: equal_ignoring_case_def same_letter_iff [abs_def])
qed

lemma toLowerCase_Foo: "toLowerCase ''Foo'' = ''foo''" "toLowerCase ''foo'' = ''foo''"
  by (simp_all add: toLowerCase_def lower_char_eq_iff is_upper_def)

lemma registered_segment:
  "formatHtml_segment enc (addFormatter n f ts) (FieldSegment ns k s e) =
     (if equal_ignoring_case n ns then (ff_formatHtml f k, [Call_formatHtml (toLowerCase n) k])
      else formatHtml_segment enc ts (FieldSegment ns k s e))"
  by (auto simp: formatHtml_segment_def addFormatter_def equal_ignoring_case_iff)

lemma registered_calls:
  assumes "formatterMap ts' = formatterMap (addFormatter n f ts)"
  shows "(Call_formatHtml (toLowerCase n) k \<in> set (snd (formatHtml_segment enc ts' sg))) =
     (case sg of FieldSegment ns k' _ _ \<Rightarrow> equal_ignoring_case n ns \<and> k' = k | _ \<Rightarrow> False)"
  using assms
  by (cases sg)
     (auto simp: formatHtml_segment_def addFormatter_def equal_ignoring_case_iff
           split: option.splits if_splits)

lemma no_error_calls:
  "Call_getErrorMessage n k \<notin> set (concat (map (\<lambda>sg. snd (formatHtml_segment enc ts sg)) segs))"
proof (induction segs)
  case Nil
  then show ?case by simp
next
  case (Cons sg segs)
  have "Call_getErrorMessage n k \<notin> set (snd (formatHtml_segment enc ts sg))"
    by (cases sg) (auto simp: formatHtml_segment_def split: option.splits)
  with Cons show ?case by simp
qed


section \<open>Properties of the lexer\<close>

text \<open>
  C2. \<open>lex\<close> is total: on every input it returns a token sequence, never the fatal
  "Unable to parse!" failure, because in the NORMAL and in the FIELD state every non-empty
  remaining input is matched by at least one rule of the state.
\<close>

theorem lex_total:
  "(\<exists>toks. lex input = Inr toks) \<and> lex input \<noteq> Inl UnableToParse
   \<and> first_match (LexerStateRules state) (c # cs) \<noteq> None"
  using lex_loop_total [of NORMAL input "[]"] first_match_exhaustive [of state c cs]
  by (auto simp: lex_def)

theorem lex_total_witness:
  "lex [CHR ''a'', CHR ''$'', CHR ''{'', CHR ''n'', CHR '':'', CHR ''k'', CHR ''}'', backslash]
     = Inr [\<lparr>tok_type = STRING, tok_text = ''a''\<rparr>,
            \<lparr>tok_type = OPEN_BRACKET, tok_text = ''${''\<rparr>,
            \<lparr>tok_type = SYMBOL, tok_text = ''n''\<rparr>,
            \<lparr>tok_type = COLON, tok_text = '':''\<rparr>,
            \<lparr>tok_type = SYMBOL, tok_text = ''k''\<rparr>,
            \<lparr>tok_type = CLOSE_BRACKET, tok_text = ''}''\<rparr>,
            \<lparr>tok_type = STRING, tok_text = [backslash]\<rparr>]
   \<and> first_match (LexerStateRules FIELD) (CHR ''}'' # []) \<noteq> None"
  using lex_total [of "[CHR ''a'', CHR ''$'', CHR ''{'', CHR ''n'', CHR '':'', CHR ''k'', CHR ''}'', backslash]"
                      FIELD "CHR ''}''" "[]"]
  by (simp add: lex_def lex_loop.simps NormalParseRules_def FieldParseRules_def
                match_literal_def match_run_def backslash_def)


section \<open>Properties of the parser\<close>

text \<open>
  C1. For every template, \<open>setTemplateString\<close> succeeds and the column ranges of the segments
  partition the template: the first segment starts at column 0, each segment starts where
  the one before it ends, no range is empty, the last one ends at the length of the template,
  and the widths \<open>endColumn - startColumn\<close> add up to the length of the template.
\<close>

theorem segments_partition_template:
  "\<exists>ts' segs. setTemplateString t ts = Inr ts' \<and> segments ts' = Some segs
      \<and> contiguous 0 segs (length t)
      \<and> sum_list (map (\<lambda>seg. endColumn seg - startColumn seg) segs) = length t"
proof -
  from tiles_setTemplateString [of t ts] obtain ts' segs where
    "setTemplateString t ts = Inr ts'" "segments ts' = Some segs" "tiles 0 t segs" by blast
  with tiles_contiguous [of 0 t segs] show ?thesis by auto
qed

theorem segments_partition_template_witness:
  "\<exists>ts'. setTemplateString ''x${a:b}'' new_TemplateString = Inr ts'
      \<and> segments ts' = Some [TextSegment ''x'' 0 1, FieldSegment ''a'' ''b'' 1 7]
      \<and> contiguous 0 [TextSegment ''x'' 0 1, FieldSegment ''a'' ''b'' 1 7] (length ''x${a:b}'')
      \<and> sum_list (map (\<lambda>seg. endColumn seg - startColumn seg)
                    [TextSegment ''x'' 0 1, FieldSegment ''a'' ''b'' 1 7]) = length ''x${a:b}''"
proof -
  from segments_partition_template [of "''x${a:b}''" new_TemplateString] obtain ts' segs where
    set: "setTemplateString ''x${a:b}'' new_TemplateString = Inr ts'" and
    segs: "segments ts' = Some segs" and
    part: "contiguous 0 segs (length ''x${a:b}'')"
          "sum_list (map (\<lambda>seg. endColumn seg - startColumn seg) segs) = length ''x${a:b}''"
    by blast
  from setTemplateString_spec [of "''x${a:b}''" new_TemplateString] set segs
  have "segs = [TextSegment ''x'' 0 1, FieldSegment ''a'' ''b'' 1 7]"
    by (auto simp: partition_example_segments)
  with set segs part show ?thesis by blast
qed


text \<open>
  C3. For every namespace \<open>ns\<close> and key \<open>k\<close>, both non-empty and free of \<open>:\<close> and \<open>}\<close>,
  setting the template \<open>${ns:k}\<close> succeeds and leaves exactly one segment: a Field segment
  with namespace \<open>ns\<close> and key \<open>k\<close>, the texts of the two symbols as they are, over the columns
  from 0 to the length of the template. No further condition on \<open>ns\<close> is needed.
\<close>

theorem complete_field_single_segment:
  assumes "ns \<noteq> []" and "k \<noteq> []"
    and "CHR '':'' \<notin> set ns" and "CHR ''}'' \<notin> set ns"
    and "CHR '':'' \<notin> set k" and "CHR ''}'' \<notin> set k"
  shows "\<exists>ts'. setTemplateString (''${'' @ ns @ '':'' @ k @ ''}'') ts = Inr ts'
           \<and> segments ts' =
               Some [FieldSegment ns k 0 (length (''${'' @ ns @ '':'' @ k @ ''}''))]"
proof -
  from assms have "\<forall>c\<in>set ns. symbol_char c" "\<forall>c\<in>set k. symbol_char c"
    by (auto simp: symbol_char_def)
  from complete_field_tokens [OF assms(1,2) this]
  have "segs_of (toks_of NORMAL (''${'' @ ns @ '':'' @ k @ ''}''))
     = [FieldSegment ns k 0 (2 + length ns + 1 + length k + 1)]"
    by (simp only: segs_of_complete_field)
  then have "correct_columns 0 (segs_of (toks_of NORMAL (''${'' @ ns @ '':'' @ k @ ''}'')))
     = [FieldSegment ns k 0 (length (''${'' @ ns @ '':'' @ k @ ''}''))]"
    by (simp only: correct_columns.simps set_columns.simps Segment.sel) simp
  with setTemplateString_spec [of "''${'' @ ns @ '':'' @ k @ ''}''" ts] show ?thesis by auto
qed

theorem complete_field_single_segment_witness:
  "\<exists>ts'. setTemplateString ''${ns:key}'' new_TemplateString = Inr ts'
         \<and> segments ts' = Some [FieldSegment ''ns'' ''key'' 0 9]"
  using complete_field_single_segment [of "''ns''" "''key''" new_TemplateString]
  by (simp add: eval_nat_numeral)

text \<open>
  C4, as the code has it. For every non-empty template without \<open>$\<close> and without backslash,
  setting the template succeeds and leaves exactly one segment: a Text segment whose text is
  the template, over the columns from 0 to its length.
\<close>

theorem plain_template_single_text:
  assumes "t \<noteq> []" and "CHR ''$'' \<notin> set t" and "backslash \<notin> set t"
  shows "\<exists>ts'. setTemplateString t ts = Inr ts'
           \<and> segments ts' = Some [TextSegment t 0 (length t)]"
proof -
  from assms have "\<forall>c\<in>set t. plain_char c" by (auto simp: plain_char_def)
  then have "toks_of NORMAL t = [\<lparr>tok_type = STRING, tok_text = t\<rparr>]"
    using assms(1) by (simp add: plain_template_tokens)
  then have "correct_columns 0 (segs_of (toks_of NORMAL t)) = [TextSegment t 0 (length t)]"
    using assms(1) by (simp add: segs_of_single_string)
  with setTemplateString_spec [of t ts] show ?thesis by auto
qed

theorem plain_template_single_text_witness:
  "\<exists>ts'. setTemplateString ''Hello, world'' new_TemplateString = Inr ts'
         \<and> segments ts' = Some [TextSegment ''Hello, world'' 0 12]"
  using plain_template_single_text [of "''Hello, world''" new_TemplateString]
  by (simp add: backslash_def eval_nat_numeral)

text \<open>
  C4 as stated fails at the empty template, which has neither \<open>$\<close> nor backslash: the loop
  of \<open>_parse\<close> is not entered and there is no segment at all.
\<close>

theorem empty_template_no_segment:
  "map_sum id segments (setTemplateString [] new_TemplateString) = Inr (Some [])"
proof -
  from setTemplateString_spec [of "[]" new_TemplateString]
  obtain ts' where "setTemplateString [] new_TemplateString = Inr ts'" and "segments ts' = Some []"
    by auto
  then show ?thesis by simp
qed

text \<open>
  C5. For every template that opens a field and never closes it, \<open>${\<close> followed by any text
  without \<open>}\<close>, setting the template succeeds (neither the lexer nor the parser raises) and
  leaves exactly one segment: an Error segment whose text is the whole template.
\<close>

theorem unterminated_field_single_error:
  assumes "CHR ''}'' \<notin> set rest"
  shows "\<exists>ts'. setTemplateString (''${'' @ rest) ts = Inr ts'
           \<and> segments ts' = Some [ErrorSegment (''${'' @ rest) [] 0 (length (''${'' @ rest))]"
proof -
  let ?t = "''${'' @ rest"
  let ?open = "\<lparr>tok_type = OPEN_BRACKET, tok_text = ''${''\<rparr>"
  have toks: "toks_of NORMAL ?t = ?open # toks_of FIELD rest"
    using normal_open [of rest] by simp
  have types: "\<forall>t\<in>set (toks_of NORMAL ?t). tok_type t = OPEN_BRACKET \<or> tok_type t = SYMBOL \<or> tok_type t = COLON"
    using field_no_close_types [OF assms] by (auto simp: normal_open)
  then have 1: "\<forall>t\<in>set (toks_of NORMAL ?t). is_bad t"
    and 2: "\<forall>t\<in>set (toks_of NORMAL ?t). tok_type t \<noteq> CLOSE_BRACKET"
    by (auto simp: is_bad_def nonFieldTypes_def)
  have 3: "toks_of NORMAL ?t \<noteq> []" by (simp add: normal_open)
  have "segs_of (toks_of NORMAL ?t) = [ErrorSegment ?t [] 0 (length ?t)]"
    using segs_of_bad_run [OF 3 1 2] by (simp only: toks_concat)
  then have "correct_columns 0 (segs_of (toks_of NORMAL ?t)) = [ErrorSegment ?t [] 0 (length ?t)]"
    by (simp only: correct_columns.simps set_columns.simps Segment.sel) simp
  with setTemplateString_spec [of ?t ts] show ?thesis by auto
qed

theorem unterminated_field_single_error_witness:
  "\<exists>ts'. setTemplateString ''${ns:key'' new_TemplateString = Inr ts'
         \<and> segments ts' = Some [ErrorSegment ''${ns:key'' [] 0 8]"
  using unterminated_field_single_error [of "''ns:key''" new_TemplateString]
  by (simp add: eval_nat_numeral)

text \<open>
  C6. The loop of \<open>_parse\<close> terminates, on every sequence of tokens and from every cursor
  position inside it. Whenever the loop condition holds (the next token type is not EOF), the
  text phase and then the field phase return normally and leave the tokens alone, the cursor
  never moves back, it is strictly further after the two phases and still inside the tokens;
  a text phase that consumed nothing is followed by a field phase that consumes at least one
  token, and the field phase of the iteration consumes at least one token whenever a token
  remains after the text phase. The loop returns normally with the cursor at EOF, and so does
  \<open>_parse\<close> on the tokens of every template.
\<close>

theorem parse_iteration_advances:
  assumes peek: "peekTokenType ts = Inr t" and ne: "t \<noteq> EOF"
  shows "\<exists>segs1 ts1 segs2 ts2.
      processTextStateTokens ts = Inr (segs1, ts1)
    \<and> processFieldStateTokens ts1 = Inr (segs2, ts2)
    \<and> tokens ts1 = tokens ts \<and> tokens ts2 = tokens ts
    \<and> tokenIndex ts \<le> tokenIndex ts1 \<and> tokenIndex ts1 \<le> tokenIndex ts2
    \<and> tokenIndex ts < tokenIndex ts2 \<and> tokenIndex ts2 \<le> length (tokens ts)
    \<and> (tokenIndex ts1 = tokenIndex ts \<longrightarrow> tokenIndex ts1 < tokenIndex ts2)
    \<and> (peekTokenType ts1 \<noteq> Inr EOF \<longrightarrow> tokenIndex ts1 < tokenIndex ts2)
    \<and> (\<exists>result' ts'. parse_loop result ts = Inr (result', ts') \<and> peekTokenType ts' = Inr EOF)
    \<and> (\<exists>segs ts'. parse templateString ts = Inr (segs, ts'))"
proof -
  from peek have ok: "cursor_ok ts" by (rule peek_Inr_cursor_ok)
  from peek ne obtain tk r where rem: "remaining ts = tk # r" and tk: "tok_type tk \<noteq> EOF"
    using peek_not_EOF by blast
  from iteration_spec [OF ok] obtain n1 n2 where
    p1: "processTextStateTokens ts = Inr (fst (text_phase (remaining ts)), advance n1 ts)" and
    p2: "processFieldStateTokens (advance n1 ts) =
         Inr (fst (field_phase (drop n1 (remaining ts))), advance (n1 + n2) ts)" and
    n1: "n1 = snd (text_phase (remaining ts))" and
    n2: "n2 = snd (field_phase (drop n1 (remaining ts)))" and
    le: "n1 + n2 \<le> length (remaining ts)"
    by blast
  have pos: "0 < n1 + n2"
    using phases_advance [OF rem tk] n1 n2 by simp
  have bound: "tokenIndex ts + (n1 + n2) \<le> length (tokens ts)"
    using le ok by (simp add: remaining_def cursor_ok_def)
  have ok1: "cursor_ok (advance n1 ts)"
    using ok le by (simp add: cursor_ok_advance)
  have field: "peekTokenType (advance n1 ts) \<noteq> Inr EOF \<longrightarrow> 0 < n2"
  proof
    assume a: "peekTokenType (advance n1 ts) \<noteq> Inr EOF"
    have r1: "remaining (advance n1 ts) = dropWhile is_text (remaining ts)"
      using n1 by (simp add: remaining_advance after_text_phase)
    show "0 < n2"
    proof (cases "dropWhile is_text (remaining ts)")
      case Nil
      with r1 ok1 a show ?thesis by (simp add: peek_Nil)
    next
      case (Cons u us)
      then have nt: "\<not> is_text u" by (rule dropWhile_head)
      from Cons r1 a have "tok_type u \<noteq> EOF" by (simp add: peek_Cons)
      from field_phase_progress [OF Cons nt this] show ?thesis
        using n1 n2 by (simp add: after_text_phase)
    qed
  qed
  from parse_loop_ends [OF ok, of result] obtain result' ts' where
    loop: "parse_loop result ts = Inr (result', ts')" "peekTokenType ts' = Inr EOF"
    by blast
  from parse_spec [of templateString ts] have whole: "\<exists>segs ts'. parse templateString ts = Inr (segs, ts')"
    by blast
  show ?thesis
    using p1 p2 pos bound field loop whole
    by (intro exI [of _ "fst (text_phase (remaining ts))"] exI [of _ "advance n1 ts"]
              exI [of _ "fst (field_phase (drop n1 (remaining ts)))"]
              exI [of _ "advance (n1 + n2) ts"]) auto
qed

theorem parse_iteration_advances_witness:
  "\<exists>segs1 ts1 segs2 ts2.
      processTextStateTokens
        (new_TemplateString\<lparr>tokens := [\<lparr>tok_type = OPEN_BRACKET, tok_text = ''${''\<rparr>,
                                      \<lparr>tok_type = STRING, tok_text = ''x''\<rparr>]\<rparr>) = Inr (segs1, ts1)
    \<and> processFieldStateTokens ts1 = Inr (segs2, ts2)
    \<and> 0 < tokenIndex ts2 \<and> tokenIndex ts2 \<le> 2"
  using parse_iteration_advances
    [of "new_TemplateString\<lparr>tokens := [\<lparr>tok_type = OPEN_BRACKET, tok_text = ''${''\<rparr>,
                                      \<lparr>tok_type = STRING, tok_text = ''x''\<rparr>]\<rparr>"
        OPEN_BRACKET "[]" "[]"]
  by (simp add: new_TemplateString_def peekTokenType_def numeral_2_eq_2) blast

text \<open>
  C9. For every template and every Text segment of its parse, with columns from \<open>a\<close> to
  \<open>b\<close>: the text of the segment is the decoding of the characters of the template in these
  columns, where each backslash followed by \<open>$\<close> becomes the single character \<open>$\<close> and
  every other character stays; and the width \<open>b - a\<close> is the length of the text plus the number of escape
  sequences. So each escape sequence gives one character of the text and two columns.
  In the NORMAL state, the state of text, the lexer turns a backslash followed by \<open>$\<close> at the
  head of its input into one ESCAPE_DOLLAR token and stays in the state.
\<close>

theorem escaped_dollar_in_text:
  "(\<exists>ts' segs. setTemplateString t ts = Inr ts' \<and> segments ts' = Some segs
      \<and> (\<forall>decoded a b. TextSegment decoded a b \<in> set segs \<longrightarrow>
            a < b \<and> b \<le> length t
            \<and> decoded = unescape (take (b - a) (drop a t))
            \<and> b - a = length decoded + escapes (take (b - a) (drop a t))))
   \<and> lex_loop NORMAL (backslash # CHR ''$'' # rest) acc =
       lex_loop NORMAL rest (acc @ [\<lparr>tok_type = ESCAPE_DOLLAR, tok_text = [backslash, CHR ''$'']\<rparr>])"
proof -
  have esc: "lex_loop NORMAL (backslash # CHR ''$'' # rest) acc =
       lex_loop NORMAL rest (acc @ [\<lparr>tok_type = ESCAPE_DOLLAR, tok_text = [backslash, CHR ''$'']\<rparr>])"
    by (simp add: lex_loop_toks_of normal_escape)
  from tiles_setTemplateString [of t ts] obtain ts' segs where
    1: "setTemplateString t ts = Inr ts'" "segments ts' = Some segs" and tl: "tiles 0 t segs" by blast
  have "\<forall>decoded a b. TextSegment decoded a b \<in> set segs \<longrightarrow>
            a < b \<and> b \<le> length t
            \<and> decoded = unescape (take (b - a) (drop a t))
            \<and> b - a = length decoded + escapes (take (b - a) (drop a t))"
  proof (intro allI impI)
    fix decoded a b
    assume "TextSegment decoded a b \<in> set segs"
    from tiles_text_segment [OF tl this] have
      r: "a < b" "b \<le> length t" and tx: "decoded = unescape (take (b - a) (drop a t))"
      by simp_all
    have "length (take (b - a) (drop a t)) = b - a" using r by simp
    with length_unescape [of "take (b - a) (drop a t)"] tx
    have "b - a = length decoded + escapes (take (b - a) (drop a t))" by simp
    with r tx show "a < b \<and> b \<le> length t
            \<and> decoded = unescape (take (b - a) (drop a t))
            \<and> b - a = length decoded + escapes (take (b - a) (drop a t))" by blast
  qed
  with 1 esc show ?thesis by blast
qed

theorem escaped_dollar_in_text_witness:
  "\<exists>ts'. setTemplateString [CHR ''a'', backslash, CHR ''$'', CHR ''b''] new_TemplateString = Inr ts'
      \<and> segments ts' = Some [TextSegment ''a$b'' 0 4]
      \<and> ''a$b'' = unescape (take (4 - 0) (drop 0 [CHR ''a'', backslash, CHR ''$'', CHR ''b'']))
      \<and> (4::nat) - 0 = length ''a$b''
                       + escapes (take (4 - 0) (drop 0 [CHR ''a'', backslash, CHR ''$'', CHR ''b'']))"
proof -
  let ?t = "[CHR ''a'', backslash, CHR ''$'', CHR ''b'']"
  from escaped_dollar_in_text [of ?t new_TemplateString] obtain ts' segs where
    set: "setTemplateString ?t new_TemplateString = Inr ts'" and
    segs: "segments ts' = Some segs" and
    all: "\<forall>decoded a b. TextSegment decoded a b \<in> set segs \<longrightarrow>
            a < b \<and> b \<le> length ?t
            \<and> decoded = unescape (take (b - a) (drop a ?t))
            \<and> b - a = length decoded + escapes (take (b - a) (drop a ?t))"
    by blast
  from setTemplateString_spec [of ?t new_TemplateString] set segs
  have "segs = [TextSegment ''a$b'' 0 4]"
    by (auto simp: escaped_example_segments)
  with set segs all show ?thesis by auto
qed


section \<open>Properties of the renders\<close>

text \<open>
  C7. Let the segments of a template hold a segment that is either a Field whose
  lower-cased namespace has no formatter, or an Error segment. Then \<open>formatHtml\<close> returns
  normally and the segment contributes the empty string and no formatter call: the render is
  the render without that segment. \<open>formatDiagnosticHtml\<close> returns normally too, the segment
  contributes an error span with \<open>Unknown '\<close>, the namespace (for an Error segment, its raw
  text) and a closing quote, and so its result contains \<open>Unknown '\<close> followed by that text.
\<close>

theorem unknown_dropped_or_marked:
  assumes segs: "segments ts = Some (xs @ sg # ys)"
    and kind: "(sg = FieldSegment shown k s e \<and> formatterMap ts (toLowerCase shown) = None)
               \<or> sg = ErrorSegment shown m s e"
  shows \<open>formatHtml_segment enc ts sg = ([], [])
       \<and> formatHtml enc ts = formatHtml enc (ts\<lparr>segments := Some (xs @ ys)\<rparr>)
       \<and> (\<exists>out calls. formatHtml enc ts = Inr (out, calls))
       \<and> formatDiagnosticHtml_segment enc ts sg =
           (''<span class="segment_error">Unknown '' @ [apostrophe] @ shown @ [apostrophe]
              @ ''</span>'', [])
       \<and> (\<exists>pre post calls. formatDiagnosticHtml enc ts =
              Inr (pre @ ''Unknown '' @ [apostrophe] @ shown @ post, calls))\<close>
proof -
  from kind have plain: "formatHtml_segment enc ts sg = ([], [])"
    by (auto simp: formatHtml_segment_def)
  from kind have diag: \<open>formatDiagnosticHtml_segment enc ts sg =
           (''<span class="segment_error">Unknown '' @ [apostrophe] @ shown @ [apostrophe]
              @ ''</span>'', [])\<close>
    by (auto simp: formatDiagnosticHtml_segment_def)
  have same: "formatHtml enc ts = formatHtml enc (ts\<lparr>segments := Some (xs @ ys)\<rparr>)"
    using segs plain by (simp add: formatHtml_def Let_def)
  have ok: "\<exists>out calls. formatHtml enc ts = Inr (out, calls)"
    using segs by (simp add: formatHtml_def Let_def)
  let ?d = "\<lambda>sg. fst (formatDiagnosticHtml_segment enc ts sg)"
  have \<open>formatDiagnosticHtml enc ts =
     Inr ((concat (map ?d xs) @ ''<span class="segment_error">'') @ ''Unknown '' @ [apostrophe] @ shown
            @ ([apostrophe] @ ''</span>'' @ concat (map ?d ys)),
          concat (map (\<lambda>sg. snd (formatDiagnosticHtml_segment enc ts sg)) (xs @ sg # ys)))\<close>
    using formatDiagnosticHtml_segments [OF segs, of enc] diag by simp
  then have "\<exists>pre post calls. formatDiagnosticHtml enc ts =
              Inr (pre @ ''Unknown '' @ [apostrophe] @ shown @ post, calls)"
    by blast
  with plain diag same ok show ?thesis by blast
qed

theorem unknown_dropped_or_marked_witness:
  \<open>formatHtml id
     (new_TemplateString\<lparr>segments :=
        Some [TextSegment ''a'' 0 1, FieldSegment ''Ns'' ''k'' 1 8, ErrorSegment ''${z'' [] 8 11]\<rparr>)
   = Inr (''a'', [])
   \<and> formatDiagnosticHtml_segment id
       (new_TemplateString\<lparr>segments :=
          Some [TextSegment ''a'' 0 1, FieldSegment ''Ns'' ''k'' 1 8, ErrorSegment ''${z'' [] 8 11]\<rparr>)
       (FieldSegment ''Ns'' ''k'' 1 8)
     = (''<span class="segment_error">Unknown '' @ [apostrophe] @ ''Ns'' @ [apostrophe] @ ''</span>'', [])\<close>
  using unknown_dropped_or_marked
    [of "new_TemplateString\<lparr>segments :=
          Some [TextSegment ''a'' 0 1, FieldSegment ''Ns'' ''k'' 1 8, ErrorSegment ''${z'' [] 8 11]\<rparr>"
        "[TextSegment ''a'' 0 1]" "FieldSegment ''Ns'' ''k'' 1 8" "[ErrorSegment ''${z'' [] 8 11]"
        "''Ns''" "''k''" 1 8 "[]" id]
  by (simp add: new_TemplateString_def formatHtml_def formatHtml_segment_def)

text \<open>
  C8. The lookup of a formatter ignores the letter case of the namespace, and only that.
  Two namespaces have the same lower-case form exactly when they are equal up to the case
  of their letters. After \<open>addFormatter(n, f)\<close>, a Field segment with namespace \<open>ns\<close> and key
  \<open>k\<close> contributes \<open>f.formatHtml(k)\<close>, by one call with the key as it is, when \<open>ns\<close> equals \<open>n\<close>
  up to letter case; otherwise it renders as it did before the registration. For every
  template, the plain render calls \<open>formatHtml\<close> of the formatter stored for \<open>n\<close> with the key
  \<open>k\<close> once for each Field segment whose namespace equals \<open>n\<close> up to letter case and whose key
  is \<open>k\<close> exactly. In particular, after \<open>addFormatter("Foo", f)\<close> the lookup of namespace \<open>foo\<close>
  finds \<open>f\<close>, the template \<open>${foo:bar}\<close> renders to \<open>f.formatHtml("bar")\<close> with exactly that one
  call, and every template gets one call with key \<open>bar\<close> for each Field segment whose
  namespace is \<open>foo\<close> in any letter case and whose key is \<open>bar\<close>.
\<close>

theorem namespace_lookup_ignores_case:
  "equal_ignoring_case a b = (toLowerCase a = toLowerCase b)
   \<and> formatHtml_segment enc (addFormatter n f ts) (FieldSegment ns k s e) =
       (if equal_ignoring_case n ns then (ff_formatHtml f k, [Call_formatHtml (toLowerCase n) k])
        else formatHtml_segment enc ts (FieldSegment ns k s e))
   \<and> (\<exists>ts' segs out calls.
          setTemplateString t (addFormatter n f ts) = Inr ts'
          \<and> segments ts' = Some segs
          \<and> formatHtml enc ts' = Inr (out, calls)
          \<and> count_list calls (Call_formatHtml (toLowerCase n) k) =
              length (filter (\<lambda>sg. case sg of
                                      FieldSegment ns' k' _ _ \<Rightarrow> equal_ignoring_case n ns' \<and> k' = k
                                    | _ \<Rightarrow> False) segs))
   \<and> formatterMap (addFormatter ''Foo'' f ts) (toLowerCase ''foo'') = Some f
   \<and> (\<exists>ts'. setTemplateString ''${foo:bar}'' (addFormatter ''Foo'' f ts) = Inr ts'
          \<and> formatHtml enc ts' = Inr (ff_formatHtml f ''bar'', [Call_formatHtml ''foo'' ''bar'']))
   \<and> (\<exists>ts' segs out calls.
          setTemplateString t (addFormatter ''Foo'' f ts) = Inr ts'
          \<and> segments ts' = Some segs
          \<and> formatHtml enc ts' = Inr (out, calls)
          \<and> count_list calls (Call_formatHtml ''foo'' ''bar'') =
              length (filter (\<lambda>sg. case sg of
                                      FieldSegment ns' k' _ _ \<Rightarrow> toLowerCase ns' = ''foo'' \<and> k' = ''bar''
                                    | _ \<Rightarrow> False) segs))"
proof -
  let ?ts = "addFormatter ''Foo'' f ts"
  have look: "formatterMap ?ts ''foo'' = Some f"
    by (simp add: addFormatter_def toLowerCase_Foo)
  have g1: "equal_ignoring_case a b = (toLowerCase a = toLowerCase b)"
    by (rule equal_ignoring_case_iff)
  have g2: "formatHtml_segment enc (addFormatter n f ts) (FieldSegment ns k s e) =
       (if equal_ignoring_case n ns then (ff_formatHtml f k, [Call_formatHtml (toLowerCase n) k])
        else formatHtml_segment enc ts (FieldSegment ns k s e))"
    by (rule registered_segment)
  have g3: "\<exists>ts' segs out calls.
          setTemplateString t (addFormatter m f ts) = Inr ts'
          \<and> segments ts' = Some segs
          \<and> formatHtml enc ts' = Inr (out, calls)
          \<and> count_list calls (Call_formatHtml (toLowerCase m) j) =
              length (filter (\<lambda>sg. case sg of
                                      FieldSegment ns' k' _ _ \<Rightarrow> equal_ignoring_case m ns' \<and> k' = j
                                    | _ \<Rightarrow> False) segs)" for m j
  proof -
    from setTemplateString_spec [of t "addFormatter m f ts"] obtain ts' segs where
      set: "setTemplateString t (addFormatter m f ts) = Inr ts'" and
      sg: "segments ts' = Some segs" and
      fm: "formatterMap ts' = formatterMap (addFormatter m f ts)"
      by auto
    from formatHtml_segments [OF sg, of enc]
         count_calls [of enc ts' segs "Call_formatHtml (toLowerCase m) j"]
    have "\<exists>out calls. formatHtml enc ts' = Inr (out, calls)
          \<and> count_list calls (Call_formatHtml (toLowerCase m) j) =
              length (filter (\<lambda>sg. case sg of
                                      FieldSegment ns' k' _ _ \<Rightarrow> equal_ignoring_case m ns' \<and> k' = j
                                    | _ \<Rightarrow> False) segs)"
      by (simp add: registered_calls [OF fm])
    with set sg show ?thesis by blast
  qed
  have 1: "formatterMap ?ts (toLowerCase ''foo'') = Some f"
    using look by (simp add: toLowerCase_Foo)
  have 2: "\<exists>ts'. setTemplateString ''${foo:bar}'' ?ts = Inr ts'
          \<and> formatHtml enc ts' = Inr (ff_formatHtml f ''bar'', [Call_formatHtml ''foo'' ''bar''])"
  proof -
    have sc: "\<forall>c\<in>set ''foo''. symbol_char c" "\<forall>c\<in>set ''bar''. symbol_char c"
      by (simp_all add: symbol_char_def)
    have "toks_of NORMAL (''${'' @ ''foo'' @ '':'' @ ''bar'' @ ''}'') =
       [\<lparr>tok_type = OPEN_BRACKET, tok_text = ''${''\<rparr>,
        \<lparr>tok_type = SYMBOL, tok_text = ''foo''\<rparr>,
        \<lparr>tok_type = COLON, tok_text = '':''\<rparr>,
        \<lparr>tok_type = SYMBOL, tok_text = ''bar''\<rparr>,
        \<lparr>tok_type = CLOSE_BRACKET, tok_text = ''}''\<rparr>]"
      by (rule complete_field_tokens) (simp_all add: sc)
    then have "segs_of (toks_of NORMAL ''${foo:bar}'') =
        [FieldSegment ''foo'' ''bar'' 0 (2 + length ''foo'' + 1 + length ''bar'' + 1)]"
      by (simp add: segs_of_complete_field)
    then have "correct_columns 0 (segs_of (toks_of NORMAL ''${foo:bar}'')) =
        [FieldSegment ''foo'' ''bar'' 0 10]"
      by simp
    with setTemplateString_spec [of "''${foo:bar}''" ?ts] obtain ts' where
      set: "setTemplateString ''${foo:bar}'' ?ts = Inr ts'" and
      sg: "segments ts' = Some [FieldSegment ''foo'' ''bar'' 0 10]" and
      fm: "formatterMap ts' = formatterMap ?ts"
      by auto
    have "formatHtml enc ts' = Inr (ff_formatHtml f ''bar'', [Call_formatHtml ''foo'' ''bar''])"
      using sg fm look by (simp add: formatHtml_def formatHtml_segment_def toLowerCase_Foo)
    with set show ?thesis by blast
  qed
  have 3: "\<exists>ts' segs out calls.
          setTemplateString t ?ts = Inr ts'
          \<and> segments ts' = Some segs
          \<and> formatHtml enc ts' = Inr (out, calls)
          \<and> count_list calls (Call_formatHtml ''foo'' ''bar'') =
              length (filter (\<lambda>sg. case sg of
                                      FieldSegment ns' k' _ _ \<Rightarrow> toLowerCase ns' = ''foo'' \<and> k' = ''bar''
                                    | _ \<Rightarrow> False) segs)"
    using g3 [of "''Foo''" "''bar''"]
    by (simp add: equal_ignoring_case_iff toLowerCase_Foo eq_commute [of "''foo''"])
  from g1 g2 g3 [of n k] 1 2 3 show ?thesis by blast
qed

theorem namespace_lookup_ignores_case_witness:
  "equal_ignoring_case [CHR 0xC9, CHR ''t'', CHR 0xC9] [CHR 0xE9, CHR ''T'', CHR 0xC9]
   \<and> toLowerCase [CHR 0xC9, CHR ''t'', CHR 0xC9] = toLowerCase [CHR 0xE9, CHR ''T'', CHR 0xC9]
   \<and> equal_ignoring_case ''Foo'' ''fOO''
   \<and> formatHtml_segment id
        (addFormatter ''Foo''
           \<lparr>ff_formatHtml = (\<lambda>k. ''<b>'' @ k @ ''</b>''), ff_getErrorMessage = (\<lambda>k. None)\<rparr>
           new_TemplateString)
        (FieldSegment ''fOO'' ''Bar'' 0 10)
       = (''<b>Bar</b>'', [Call_formatHtml ''foo'' ''Bar''])
   \<and> (\<exists>ts'. setTemplateString ''${foo:bar}''
            (addFormatter ''Foo''
               \<lparr>ff_formatHtml = (\<lambda>k. ''<b>'' @ k @ ''</b>''), ff_getErrorMessage = (\<lambda>k. None)\<rparr>
               new_TemplateString) = Inr ts'
        \<and> formatHtml id ts' = Inr (''<b>bar</b>'', [Call_formatHtml ''foo'' ''bar'']))"
proof -
  have eq: "equal_ignoring_case ''Foo'' ''fOO''"
    "equal_ignoring_case [CHR 0xC9, CHR ''t'', CHR 0xC9] [CHR 0xE9, CHR ''T'', CHR 0xC9]"
    by (simp_all add: equal_ignoring_case_def same_letter_def is_upper_def)
  from namespace_lookup_ignores_case
    [where f = "\<lparr>ff_formatHtml = (\<lambda>k. ''<b>'' @ k @ ''</b>''), ff_getErrorMessage = (\<lambda>k. None)\<rparr>"
       and ts = new_TemplateString and enc = id and n = "''Foo''" and ns = "''fOO''"
       and k = "''Bar''" and s = 0 and e = 10 and t = "[]"
       and a = "[CHR 0xC9, CHR ''t'', CHR 0xC9]" and b = "[CHR 0xE9, CHR ''T'', CHR 0xC9]"]
  show ?thesis
    using eq by (simp add: toLowerCase_Foo)
qed

text \<open>
  C10. The plain render returns the concatenation of the segments' contributions and makes
  no call of \<open>getErrorMessage\<close> at all. A Field segment whose namespace has a formatter
  contributes \<open>formatter.formatHtml(key)\<close> there, whatever \<open>getErrorMessage(key)\<close> would return.
  The diagnostic render of the same segment calls \<open>getErrorMessage(key)\<close> and shows the
  message in place of the value when there is one.
\<close>

theorem plain_render_skips_getErrorMessage:
  assumes segs: "segments ts = Some segs"
    and fm: "formatterMap ts (toLowerCase ns) = Some fm"
  shows \<open>(\<exists>out calls. formatHtml enc ts = Inr (out, calls)
            \<and> out = concat (map (\<lambda>sg. fst (formatHtml_segment enc ts sg)) segs)
            \<and> (\<forall>n k'. Call_getErrorMessage n k' \<notin> set calls))
       \<and> formatHtml_segment enc ts (FieldSegment ns k s e) =
           (ff_formatHtml fm k, [Call_formatHtml (toLowerCase ns) k])
       \<and> formatDiagnosticHtml_segment enc ts (FieldSegment ns k s e) =
           (case ff_getErrorMessage fm k of
              None \<Rightarrow>
                (''<span class="segment_field">'' @ ff_formatHtml fm k @ ''</span>'',
                 [Call_getErrorMessage (toLowerCase ns) k, Call_formatHtml (toLowerCase ns) k])
            | Some errorMsg \<Rightarrow>
                (''<span class="segment_error">'' @ errorMsg @ ''</span>'',
                 [Call_getErrorMessage (toLowerCase ns) k]))\<close>
proof -
  have 1: "\<exists>out calls. formatHtml enc ts = Inr (out, calls)
            \<and> out = concat (map (\<lambda>sg. fst (formatHtml_segment enc ts sg)) segs)
            \<and> (\<forall>n k'. Call_getErrorMessage n k' \<notin> set calls)"
    using formatHtml_segments [OF segs, of enc] no_error_calls [of _ _ enc ts segs] by simp
  have 2: "formatHtml_segment enc ts (FieldSegment ns k s e) =
           (ff_formatHtml fm k, [Call_formatHtml (toLowerCase ns) k])"
    using fm by (simp add: formatHtml_segment_def)
  have 3: \<open>formatDiagnosticHtml_segment enc ts (FieldSegment ns k s e) =
           (case ff_getErrorMessage fm k of
              None \<Rightarrow>
                (''<span class="segment_field">'' @ ff_formatHtml fm k @ ''</span>'',
                 [Call_getErrorMessage (toLowerCase ns) k, Call_formatHtml (toLowerCase ns) k])
            | Some errorMsg \<Rightarrow>
                (''<span class="segment_error">'' @ errorMsg @ ''</span>'',
                 [Call_getErrorMessage (toLowerCase ns) k]))\<close>
    using fm by (simp add: formatDiagnosticHtml_segment_def)
  from 1 2 3 show ?thesis by blast
qed

theorem plain_render_skips_getErrorMessage_witness:
  \<open>formatHtml id
      ((addFormatter ''Git'' \<lparr>ff_formatHtml = (\<lambda>k. ''v:'' @ k), ff_getErrorMessage = (\<lambda>k. Some ''bad key'')\<rparr>
          new_TemplateString)\<lparr>segments := Some [FieldSegment ''GIT'' ''branch'' 0 13]\<rparr>)
     = Inr (''v:branch'', [Call_formatHtml ''git'' ''branch''])
   \<and> formatDiagnosticHtml id
      ((addFormatter ''Git'' \<lparr>ff_formatHtml = (\<lambda>k. ''v:'' @ k), ff_getErrorMessage = (\<lambda>k. Some ''bad key'')\<rparr>
          new_TemplateString)\<lparr>segments := Some [FieldSegment ''GIT'' ''branch'' 0 13]\<rparr>)
     = Inr (''<span class="segment_error">bad key</span>'', [Call_getErrorMessage ''git'' ''branch''])\<close>
proof -
  have lower: "toLowerCase ''Git'' = ''git''" "toLowerCase ''GIT'' = ''git''"
    by (simp_all add: toLowerCase_def lower_char_eq_iff is_upper_def)
  show ?thesis
    using plain_render_skips_getErrorMessage
      [of "(addFormatter ''Git'' \<lparr>ff_formatHtml = (\<lambda>k. ''v:'' @ k), ff_getErrorMessage = (\<lambda>k. Some ''bad key'')\<rparr>
            new_TemplateString)\<lparr>segments := Some [FieldSegment ''GIT'' ''branch'' 0 13]\<rparr>"
          "[FieldSegment ''GIT'' ''branch'' 0 13]" "''GIT''"
          "\<lparr>ff_formatHtml = (\<lambda>k. ''v:'' @ k), ff_getErrorMessage = (\<lambda>k. Some ''bad key'')\<rparr>"
          id "''branch''" 0 13]
    by (simp add: addFormatter_def lower new_TemplateString_def formatHtml_def
                  formatDiagnosticHtml_def)
qed

end
